theory Spec2Isabelle
  imports Main "HOL-Library.Word" "HOL-Library.Multiset" "HOL-Library.AList"
begin

section \<open>Data model (internal/adapter/s3, internal/config, internal/command/delete.go)\<close>

text \<open>
  A \<open>time.Time\<close> is modelled as the number of nanoseconds since Go's zero instant
  (January 1, year 1, 00:00 UTC), so \<open>t.IsZero()\<close> is \<open>t = 0\<close>, \<open>a.Before(b)\<close> is
  \<open>a < b\<close> and \<open>a.After(b)\<close> is \<open>b < a\<close>. Instants before the zero instant are negative.
\<close>

type_synonym time = int

record FileInfo =
  Key :: string
  CreatedAt :: time
  Size :: "64 word"

record DeletionRules =
  MaxAgeDays :: int
  MaxCount :: int
  Enabled :: bool

text \<open>
  \<open>DeleteStats\<close> has the seven fields of \<open>DatabaseStats\<close> and the per-database map, so
  it is the record extension. The \<open>int\<close> counters are lengths of slices held in memory
  and never overflow; an \<open>int64\<close> size is a 64-bit word (\<open>sint\<close> reads it) and sums wrap.
\<close>

record DatabaseStats =
  TotalFiles :: int
  DeletedFiles :: int
  RetainedFiles :: int
  DeletedSize :: "64 word"
  RetainedSize :: "64 word"
  OldestRetained :: time
  NewestRetained :: time

record DeleteStats = DatabaseStats +
  PerDatabase :: "string \<rightharpoonup> DatabaseStats"

datatype error = FailedToList | FailedToDelete string

text \<open>
  The object store: the objects of the bucket in listing order, whether the listing call
  fails, and for which keys a delete call fails.
\<close>

record S3 =
  objects :: "FileInfo list"
  list_fails :: bool
  delete_fails :: "string \<Rightarrow> bool"

definition s3_List :: "S3 \<Rightarrow> error + FileInfo list" where
  "s3_List s = (if list_fails s then Inl FailedToList else Inr (objects s))"

definition s3_Delete :: "S3 \<Rightarrow> string \<Rightarrow> error + S3" where
  "s3_Delete s key =
     (if delete_fails s key then Inl (FailedToDelete key)
      else Inr (s\<lparr>objects := filter (\<lambda>f. Key f \<noteq> key) (objects s)\<rparr>))"

section \<open>What the Go runtime and standard library decide\<close>

text \<open>
  \<open>path.Dir\<close>, \<open>sort.Slice\<close> with the comparison \<open>files[i].CreatedAt.After(files[j].CreatedAt)\<close>,
  the order in which \<open>range\<close> visits the entries of a map (unspecified in Go, and
  randomised), the clock read by \<open>time.Now()\<close> while a database folder is processed, and
  \<open>t.AddDate(0, 0, days)\<close> (calendar arithmetic in the location of \<open>t\<close>) are parameters of
  the model. A Go map whose iteration order matters is an association list with distinct
  keys; \<open>range\<close> over it visits the entries in the order \<open>range_files\<close> or \<open>range_dbs\<close>
  returns.
\<close>

type_synonym fileset = "(string \<times> FileInfo) list"

record runtime =
  path_Dir :: "string \<Rightarrow> string"
  sort_Slice :: "FileInfo list \<Rightarrow> FileInfo list"
  range_files :: "fileset \<Rightarrow> fileset"
  range_dbs :: "(string \<times> FileInfo list) list \<Rightarrow> (string \<times> FileInfo list) list"
  time_Now :: "string \<Rightarrow> time"
  time_AddDate :: "time \<Rightarrow> int \<Rightarrow> time"

text \<open>
  What the library guarantees: \<open>sort.Slice\<close> returns a permutation in which no later
  element is \<open>After\<close> an earlier one (it is not stable), and \<open>range\<close> visits every entry
  of a map exactly once.
\<close>

definition newest_first :: "FileInfo list \<Rightarrow> bool" where
  "newest_first xs = sorted_wrt (\<lambda>a b. CreatedAt b \<le> CreatedAt a) xs"

definition go_runtime :: "runtime \<Rightarrow> bool" where
  "go_runtime rt \<longleftrightarrow>
     (\<forall>xs. mset (sort_Slice rt xs) = mset xs \<and> newest_first (sort_Slice rt xs)) \<and>
     (\<forall>m. mset (range_files rt m) = mset m) \<and>
     (\<forall>m. mset (range_dbs rt m) = mset m)"

section \<open>DeleteCommand.Execute, per database folder\<close>

text \<open>Lines 284-290: \<open>dbFiles[dbFolder] = append(dbFiles[dbFolder], file)\<close>.\<close>

definition add_file ::
  "(string \<Rightarrow> string) \<Rightarrow> FileInfo \<Rightarrow> (string \<times> FileInfo list) list \<Rightarrow> (string \<times> FileInfo list) list" where
  "add_file dir file dbFiles =
     (let dbFolder = dir (Key file)
      in AList.update dbFolder
           ((case map_of dbFiles dbFolder of None \<Rightarrow> [] | Some fs \<Rightarrow> fs) @ [file]) dbFiles)"

definition group_files :: "(string \<Rightarrow> string) \<Rightarrow> FileInfo list \<Rightarrow> (string \<times> FileInfo list) list" where
  "group_files dir files = fold (add_file dir) files []"

text \<open>Line 312: \<open>time.Now().AddDate(0, 0, -MaxAgeDays)\<close>, for the clock reading \<open>now\<close>.\<close>

definition cutoffTime :: "runtime \<Rightarrow> time \<Rightarrow> int \<Rightarrow> time" where
  "cutoffTime rt now maxAgeDays = time_AddDate rt now (- maxAgeDays)"

text \<open>Lines 313-319: the time-based rule fills the two maps.\<close>

fun age_rule :: "time \<Rightarrow> FileInfo list \<Rightarrow> fileset \<times> fileset \<Rightarrow> fileset \<times> fileset" where
  "age_rule cutoff [] (del, ret) = (del, ret)"
| "age_rule cutoff (file # files) (del, ret) =
     (if CreatedAt file < cutoff
      then age_rule cutoff files (AList.update (Key file) file del, ret)
      else age_rule cutoff files (del, AList.update (Key file) file ret))"

text \<open>Lines 333-341: more files than \<open>max_count\<close>; \<open>i\<close> is the index of the loop.\<close>

fun count_rule_excess :: "int \<Rightarrow> nat \<Rightarrow> FileInfo list \<Rightarrow> fileset \<times> fileset \<Rightarrow> fileset \<times> fileset" where
  "count_rule_excess maxCount i [] (del, ret) = (del, ret)"
| "count_rule_excess maxCount i (file # files) (del, ret) =
     (if int i \<ge> maxCount
      then count_rule_excess maxCount (Suc i) files
             (AList.update (Key file) file del, AList.delete (Key file) ret)
      else count_rule_excess maxCount (Suc i) files
             (AList.delete (Key file) del, AList.update (Key file) file ret))"

text \<open>Lines 344-347: at most \<open>max_count\<close> files; all of them are retained.\<close>

fun count_rule_all :: "FileInfo list \<Rightarrow> fileset \<times> fileset \<Rightarrow> fileset \<times> fileset" where
  "count_rule_all [] (del, ret) = (del, ret)"
| "count_rule_all (file # files) (del, ret) =
     count_rule_all files (AList.delete (Key file) del, AList.update (Key file) file ret)"

text \<open>
  Lines 307-354 on the sorted files of one folder, when the clock reads \<open>now\<close>: the pair
  \<open>(filesToDelete, filesToRetain)\<close>.
\<close>

definition classify ::
  "runtime \<Rightarrow> DeletionRules \<Rightarrow> time \<Rightarrow> FileInfo list \<Rightarrow> fileset \<times> fileset" where
  "classify rt rules now files =
     (let s0 = ([], []);
          s1 = (if MaxAgeDays rules > 0
                then age_rule (cutoffTime rt now (MaxAgeDays rules)) files s0 else s0)
      in if MaxCount rules > 0
         then (if int (length files) > MaxCount rules
               then count_rule_excess (MaxCount rules) 0 files s1
               else count_rule_all files s1)
         else s1)"

definition sum_sizes :: "FileInfo list \<Rightarrow> 64 word" where
  "sum_sizes files = fold (\<lambda>file acc. acc + Size file) files 0"

text \<open>Lines 298-385: the slices and the statistics of one database folder.\<close>

definition process_db ::
  "runtime \<Rightarrow> DeletionRules \<Rightarrow> string \<Rightarrow> FileInfo list \<Rightarrow> FileInfo list \<times> FileInfo list \<times> DatabaseStats" where
  "process_db rt rules dbFolder files0 =
     (let files = sort_Slice rt files0;
          (filesToDelete, filesToRetain) = classify rt rules (time_Now rt dbFolder) files;
          filesToDeleteSlice = map snd (range_files rt filesToDelete);
          filesToRetainSlice = sort_Slice rt (map snd (range_files rt filesToRetain));
          dbStats = \<lparr>TotalFiles = int (length files),
                     DeletedFiles = int (length filesToDeleteSlice),
                     RetainedFiles = int (length filesToRetainSlice),
                     DeletedSize = sum_sizes filesToDeleteSlice,
                     RetainedSize = sum_sizes filesToRetainSlice,
                     OldestRetained = (if filesToRetainSlice \<noteq> []
                                       then CreatedAt (last filesToRetainSlice) else 0),
                     NewestRetained = (if filesToRetainSlice \<noteq> []
                                       then CreatedAt (hd filesToRetainSlice) else 0)\<rparr>
      in (filesToDeleteSlice, filesToRetainSlice, dbStats))"

text \<open>Lines 296, 304 and 387-401: the overall statistics after one database folder.\<close>

definition update_overall ::
  "DeleteStats \<Rightarrow> string \<Rightarrow> FileInfo list \<Rightarrow> DatabaseStats \<Rightarrow> DeleteStats" where
  "update_overall stats dbFolder filesToRetainSlice dbStats =
     stats\<lparr>PerDatabase := (PerDatabase stats)(dbFolder \<mapsto> dbStats),
           TotalFiles := TotalFiles stats + TotalFiles dbStats,
           DeletedFiles := DeletedFiles stats + DeletedFiles dbStats,
           RetainedFiles := RetainedFiles stats + RetainedFiles dbStats,
           DeletedSize := DeletedSize stats + DeletedSize dbStats,
           RetainedSize := RetainedSize stats + RetainedSize dbStats,
           OldestRetained :=
             (if filesToRetainSlice \<noteq> [] \<and>
                 (OldestRetained stats = 0 \<or>
                  CreatedAt (last filesToRetainSlice) < OldestRetained stats)
              then CreatedAt (last filesToRetainSlice) else OldestRetained stats),
           NewestRetained :=
             (if filesToRetainSlice \<noteq> [] \<and>
                 (NewestRetained stats = 0 \<or>
                  NewestRetained stats < CreatedAt (hd filesToRetainSlice))
              then CreatedAt (hd filesToRetainSlice) else NewestRetained stats)\<rparr>"

section \<open>Deleting, and the whole run\<close>

text \<open>
  The outcome of a run: the two values \<open>Execute\<close> returns (\<open>None\<close> is \<open>nil\<close>), the keys
  of the delete calls issued, in order, and the store afterwards.
\<close>

record outcome =
  stats :: "DeleteStats option"
  err :: "error option"
  calls :: "string list"
  store :: S3

text \<open>Lines 441-460: one delete call per file, stopping at the first that fails.\<close>

fun deleteFiles :: "S3 \<Rightarrow> FileInfo list \<Rightarrow> S3 \<times> string list \<times> error option" where
  "deleteFiles s [] = (s, [], None)"
| "deleteFiles s (file # files) =
     (case s3_Delete s (Key file) of
        Inl e \<Rightarrow> (s, [Key file], Some (FailedToDelete (Key file)))
      | Inr s' \<Rightarrow> (case deleteFiles s' files of (s'', cs, e) \<Rightarrow> (s'', Key file # cs, e)))"

text \<open>Lines 293-424: the loop over the database folders, in the order of the range.\<close>

fun process_dbs ::
  "runtime \<Rightarrow> DeletionRules \<Rightarrow> bool \<Rightarrow> (string \<times> FileInfo list) list \<Rightarrow>
   DeleteStats \<Rightarrow> S3 \<Rightarrow> string list \<Rightarrow> outcome" where
  "process_dbs rt rules dryRun [] st s cs =
     \<lparr>stats = Some st, err = None, calls = cs, store = s\<rparr>"
| "process_dbs rt rules dryRun ((dbFolder, files0) # rest) st s cs =
     (case process_db rt rules dbFolder files0 of
        (filesToDeleteSlice, filesToRetainSlice, dbStats) \<Rightarrow>
          (let st' = update_overall st dbFolder filesToRetainSlice dbStats
           in if dryRun then process_dbs rt rules dryRun rest st' s cs
              else (case deleteFiles s filesToDeleteSlice of
                      (s', cs', Some e) \<Rightarrow>
                        \<lparr>stats = Some st', err = Some e, calls = cs @ cs', store = s'\<rparr>
                    | (s', cs', None) \<Rightarrow>
                        process_dbs rt rules dryRun rest st' s' (cs @ cs'))))"

definition empty_stats :: DeleteStats where
  "empty_stats =
     \<lparr>TotalFiles = 0, DeletedFiles = 0, RetainedFiles = 0, DeletedSize = 0,
      RetainedSize = 0, OldestRetained = 0, NewestRetained = 0, PerDatabase = Map.empty\<rparr>"

text \<open>Lines 262-438.\<close>

definition Execute :: "runtime \<Rightarrow> DeletionRules \<Rightarrow> bool \<Rightarrow> S3 \<Rightarrow> outcome" where
  "Execute rt rules dryRun s =
     (if \<not> Enabled rules
      then \<lparr>stats = Some empty_stats, err = None, calls = [], store = s\<rparr>
      else (case s3_List s of
              Inl e \<Rightarrow> \<lparr>stats = None, err = Some FailedToList, calls = [], store = s\<rparr>
            | Inr files \<Rightarrow>
                if files = []
                then \<lparr>stats = Some empty_stats, err = None, calls = [], store = s\<rparr>
                else process_dbs rt rules dryRun
                       (range_dbs rt (group_files (path_Dir rt) files)) empty_stats s []))"

section \<open>A concrete runtime\<close>

text \<open>
  The insertion sort \<open>sort.Slice\<close> runs on slices of at most twelve elements, the final
  path element dropped from a clean relative key, maps visited in insertion order, a
  constant clock, and calendar days of 24 hours (a location without zone transitions).
\<close>

definition day :: int where
  "day = 86400000000000"

fun insert_file :: "FileInfo \<Rightarrow> FileInfo list \<Rightarrow> FileInfo list" where
  "insert_file x [] = [x]"
| "insert_file x (y # ys) =
     (if CreatedAt y < CreatedAt x then x # y # ys else y # insert_file x ys)"

definition insertionSort :: "FileInfo list \<Rightarrow> FileInfo list" where
  "insertionSort xs = fold insert_file xs []"

definition plain_Dir :: "string \<Rightarrow> string" where
  "plain_Dir key =
     (if CHR ''/'' \<in> set key then rev (tl (dropWhile (\<lambda>c. c \<noteq> CHR ''/'') (rev key)))
      else ''.'')"

definition plain_runtime :: "time \<Rightarrow> runtime" where
  "plain_runtime now =
     \<lparr>path_Dir = plain_Dir, sort_Slice = insertionSort, range_files = (\<lambda>m. m),
      range_dbs = (\<lambda>m. m), time_Now = (\<lambda>_. now), time_AddDate = (\<lambda>t days. t + days * day)\<rparr>"

text \<open>The same runtime, visiting every map in reverse insertion order.\<close>

definition reversed_runtime :: "time \<Rightarrow> runtime" where
  "reversed_runtime now =
     \<lparr>path_Dir = plain_Dir, sort_Slice = insertionSort, range_files = rev,
      range_dbs = rev, time_Now = (\<lambda>_. now), time_AddDate = (\<lambda>t days. t + days * day)\<rparr>"

section \<open>Specification vocabulary and example data\<close>

text \<open>The entry a file has in \<open>filesToDelete\<close> or \<open>filesToRetain\<close>: its key and itself.\<close>

definition entry :: "FileInfo \<Rightarrow> string \<times> FileInfo" where
  "entry f = (Key f, f)"

text \<open>
  The database folders of a run in the order the loop visits them, the effect of one
  iteration of the loop on the statistics (lines 294-401, the part that does not delete),
  the statistics of one folder, the keys of the delete calls one iteration issues when
  none fails, and the delete calls of a whole run when none fails.
\<close>

definition db_folders :: "runtime \<Rightarrow> S3 \<Rightarrow> (string \<times> FileInfo list) list" where
  "db_folders rt s = range_dbs rt (group_files (path_Dir rt) (objects s))"

definition db_step :: "runtime \<Rightarrow> DeletionRules \<Rightarrow> string \<times> FileInfo list \<Rightarrow> DeleteStats \<Rightarrow> DeleteStats" where
  "db_step rt rules g st =
     (case process_db rt rules (fst g) (snd g) of
        (filesToDeleteSlice, filesToRetainSlice, dbStats) \<Rightarrow>
          update_overall st (fst g) filesToRetainSlice dbStats)"

definition db_stats :: "runtime \<Rightarrow> DeletionRules \<Rightarrow> string \<times> FileInfo list \<Rightarrow> DatabaseStats" where
  "db_stats rt rules g = snd (snd (process_db rt rules (fst g) (snd g)))"

text \<open>The statistics without the overall oldest and newest retained times.\<close>

definition counts_and_sizes :: "DeleteStats \<Rightarrow> DeleteStats" where
  "counts_and_sizes st = st\<lparr>OldestRetained := 0, NewestRetained := 0\<rparr>"

text \<open>The files one folder retains, and the files all folders of a list retain.\<close>

definition retained_files :: "runtime \<Rightarrow> DeletionRules \<Rightarrow> string \<times> FileInfo list \<Rightarrow> FileInfo list" where
  "retained_files rt rules g = fst (snd (process_db rt rules (fst g) (snd g)))"

definition retained_of_run ::
  "runtime \<Rightarrow> DeletionRules \<Rightarrow> (string \<times> FileInfo list) list \<Rightarrow> FileInfo list" where
  "retained_of_run rt rules gs = concat (map (retained_files rt rules) gs)"

definition delete_keys :: "runtime \<Rightarrow> DeletionRules \<Rightarrow> string \<times> FileInfo list \<Rightarrow> string list" where
  "delete_keys rt rules g = map Key (fst (process_db rt rules (fst g) (snd g)))"

definition planned :: "runtime \<Rightarrow> DeletionRules \<Rightarrow> (string \<times> FileInfo list) list \<Rightarrow> string list" where
  "planned rt rules gs = concat (map (delete_keys rt rules) gs)"

text \<open>
  The folders a live run reaches: every folder up to and including the first one with a
  failing delete call.
\<close>

fun folders_reached ::
  "runtime \<Rightarrow> DeletionRules \<Rightarrow> (string \<Rightarrow> bool) \<Rightarrow> (string \<times> FileInfo list) list \<Rightarrow>
   (string \<times> FileInfo list) list" where
  "folders_reached rt rules fails [] = []"
| "folders_reached rt rules fails (g # rest) =
     g # (if list_ex fails (delete_keys rt rules g) then []
          else folders_reached rt rules fails rest)"

text \<open>
  The folders whose statistics a run accumulates: none when the policy is disabled, all
  of them in a dry run, the folders reached in a live run.
\<close>

definition folders_evaluated ::
  "runtime \<Rightarrow> DeletionRules \<Rightarrow> bool \<Rightarrow> S3 \<Rightarrow> (string \<times> FileInfo list) list" where
  "folders_evaluated rt rules dryRun s =
     (if \<not> Enabled rules then []
      else if dryRun then db_folders rt s
      else folders_reached rt rules (delete_fails s) (db_folders rt s))"

text \<open>
  Three backups of one database, 40, 10 and 2 days old when the clock reads \<open>100 * day\<close>.
\<close>

definition demo_a :: FileInfo where
  "demo_a = \<lparr>Key = ''db/a'', CreatedAt = 60 * day, Size = 7\<rparr>"

definition demo_b :: FileInfo where
  "demo_b = \<lparr>Key = ''db/b'', CreatedAt = 90 * day, Size = 8\<rparr>"

definition demo_c :: FileInfo where
  "demo_c = \<lparr>Key = ''db/c'', CreatedAt = 98 * day, Size = 9\<rparr>"

text \<open>
  A bucket with two database folders, \<open>a\<close> with three backups and \<open>b\<close> with two; the
  argument says which delete calls fail.
\<close>

definition two_folders :: "(string \<Rightarrow> bool) \<Rightarrow> S3" where
  "two_folders fails =
     \<lparr>objects = [\<lparr>Key = ''a/1'', CreatedAt = 10, Size = 1\<rparr>,
                 \<lparr>Key = ''a/2'', CreatedAt = 20, Size = 2\<rparr>,
                 \<lparr>Key = ''b/1'', CreatedAt = 10, Size = 4\<rparr>,
                 \<lparr>Key = ''a/3'', CreatedAt = 30, Size = 8\<rparr>,
                 \<lparr>Key = ''b/2'', CreatedAt = 20, Size = 16\<rparr>],
      list_fails = False, delete_fails = fails\<rparr>"

text \<open>The statistics of that bucket when one backup per folder is kept.\<close>

definition two_folders_stats :: DeleteStats where
  "two_folders_stats =
     \<lparr>TotalFiles = 5, DeletedFiles = 3, RetainedFiles = 2, DeletedSize = 7, RetainedSize = 24,
      OldestRetained = 20, NewestRetained = 30,
      PerDatabase = [''a'' \<mapsto>
        \<lparr>TotalFiles = 3, DeletedFiles = 2, RetainedFiles = 1, DeletedSize = 3, RetainedSize = 8,
         OldestRetained = 30, NewestRetained = 30\<rparr>,
        ''b'' \<mapsto>
        \<lparr>TotalFiles = 2, DeletedFiles = 1, RetainedFiles = 1, DeletedSize = 4, RetainedSize = 16,
         OldestRetained = 20, NewestRetained = 20\<rparr>]\<rparr>"

text \<open>Two backups of one database with the same creation time.\<close>

definition tie_x :: FileInfo where
  "tie_x = \<lparr>Key = ''db/x'', CreatedAt = 50, Size = 1\<rparr>"

definition tie_y :: FileInfo where
  "tie_y = \<lparr>Key = ''db/y'', CreatedAt = 50, Size = 2\<rparr>"

text \<open>
  A bucket with one backup in each of two database folders; the backup of folder \<open>a\<close>
  carries Go's zero instant as its creation time.
\<close>

definition epoch_a :: FileInfo where
  "epoch_a = \<lparr>Key = ''a/1'', CreatedAt = 0, Size = 1\<rparr>"

definition later_b :: FileInfo where
  "later_b = \<lparr>Key = ''b/1'', CreatedAt = 5, Size = 2\<rparr>"

definition zero_stamp :: S3 where
  "zero_stamp = \<lparr>objects = [epoch_a, later_b], list_fails = False, delete_fails = (\<lambda>k. False)\<rparr>"

section \<open>Go maps as association lists\<close>

lemma fst_entry [simp]: "fst (entry f) = Key f"
  by (simp add: entry_def)

lemma snd_entry [simp]: "snd (entry f) = f"
  by (simp add: entry_def)

lemma fst_comp_entry [simp]: "fst \<circ> entry = Key"
  by (simp add: fun_eq_iff)

lemma map_snd_entry [simp]: "map snd (map entry xs) = xs"
  by (induction xs) simp_all

lemma map_fst_entry [simp]: "map fst (map entry xs) = map Key xs"
  by (induction xs) simp_all

lemma map_of_entry_None: "k \<notin> Key ` set fs \<Longrightarrow> map_of (map entry fs) k = None"
  by (simp add: map_of_eq_None_iff image_image)

lemma map_of_entry_Some:
  "distinct (map Key fs) \<Longrightarrow> f \<in> set fs \<Longrightarrow> map_of (map entry fs) (Key f) = Some f"
  by (induction fs) (auto simp: image_iff)

lemma update_fresh: "k \<notin> fst ` set al \<Longrightarrow> AList.update k v al = al @ [(k, v)]"
  by (induction al) auto

lemma age_rule_fresh:
  "distinct (map Key files) \<Longrightarrow> Key ` set files \<inter> (fst ` set d \<union> fst ` set r) = {} \<Longrightarrow>
   age_rule c files (d, r) =
     (d @ map entry (filter (\<lambda>f. CreatedAt f < c) files),
      r @ map entry (filter (\<lambda>f. \<not> CreatedAt f < c) files))"
proof (induction files arbitrary: d r)
  case Nil
  then show ?case by simp
next
  case (Cons f fs)
  have fresh: "Key f \<notin> fst ` set d" "Key f \<notin> fst ` set r"
    using Cons.prems(2) by auto
  have rest: "Key ` set fs \<inter> (fst ` set (d @ [(Key f, f)]) \<union> fst ` set r) = {}"
             "Key ` set fs \<inter> (fst ` set d \<union> fst ` set (r @ [(Key f, f)])) = {}"
    using Cons.prems by auto
  show ?case
    using Cons.IH[OF _ rest(1)] Cons.IH[OF _ rest(2)] Cons.prems(1) fresh
    by (simp add: update_fresh entry_def)
qed

lemma count_rule_all_excess:
  "int i + int (length fs) \<le> N \<Longrightarrow> count_rule_excess N i fs s = count_rule_all fs s"
  by (induction fs arbitrary: i s) (auto simp: split_paired_all)

lemma cre_distinct:
  "distinct (map fst d) \<Longrightarrow> distinct (map fst r) \<Longrightarrow>
   distinct (map fst (fst (count_rule_excess N i fs (d, r)))) \<and>
   distinct (map fst (snd (count_rule_excess N i fs (d, r))))"
  by (induction fs arbitrary: i d r) (simp_all add: distinct_update distinct_delete)

lemma nat_step: "int i < N \<Longrightarrow> nat (N - int i) = Suc (nat (N - int (Suc i)))"
  by simp

lemma cre_del:
  "distinct (map Key fs) \<Longrightarrow>
   map_of (fst (count_rule_excess N i fs (d, r))) =
     (map_of d |` (- Key ` set (take (nat (N - int i)) fs))) ++
     map_of (map entry (drop (nat (N - int i)) fs))"
proof (induction fs arbitrary: i d r)
  case Nil
  then show ?case by simp
next
  case (Cons f fs)
  show ?case
  proof (cases "N \<le> int i")
    case True
    have "map_of (map entry fs) (Key f) = None"
      using Cons.prems by (simp add: map_of_entry_None)
    then show ?thesis
      using True Cons.IH[of "Suc i" "AList.update (Key f) f d" "AList.delete (Key f) r"] Cons.prems
      by (auto simp: update_conv' map_add_def fun_eq_iff split: option.splits)
  next
    case False
    then have lt: "int i < N" by simp
    show ?thesis
      using lt Cons.IH[of "Suc i" "AList.delete (Key f) d" "AList.update (Key f) f r"] Cons.prems
      by (auto simp: nat_step[OF lt] delete_conv' map_add_def restrict_map_def fun_eq_iff split: option.splits)
  qed
qed

lemma cre_ret:
  "distinct (map Key fs) \<Longrightarrow>
   map_of (snd (count_rule_excess N i fs (d, r))) =
     (map_of r |` (- Key ` set (drop (nat (N - int i)) fs))) ++
     map_of (map entry (take (nat (N - int i)) fs))"
proof (induction fs arbitrary: i d r)
  case Nil
  then show ?case by simp
next
  case (Cons f fs)
  show ?case
  proof (cases "N \<le> int i")
    case True
    then show ?thesis
      using Cons.IH[of "Suc i" "AList.update (Key f) f d" "AList.delete (Key f) r"] Cons.prems
      by (auto simp: delete_conv' map_add_def restrict_map_def fun_eq_iff split: option.splits)
  next
    case False
    then have lt: "int i < N" by simp
    have "map_of (map entry (take (nat (N - int (Suc i))) fs)) (Key f) = None"
      using Cons.prems by (auto intro!: map_of_entry_None dest: in_set_takeD)
    then show ?thesis
      using lt Cons.IH[of "Suc i" "AList.delete (Key f) d" "AList.update (Key f) f r"] Cons.prems
      by (auto simp: nat_step[OF lt] update_conv' map_add_def restrict_map_def fun_eq_iff image_iff
               dest: in_set_dropD split: option.splits)
  qed
qed

lemma alist_mset_eqI:
  assumes "distinct (map fst xs)" "distinct (map fst ys)" "map_of xs = map_of ys"
  shows "mset xs = mset ys"
proof -
  have "set xs = set ys"
    using assms by (simp add: map_of_inject_set)
  moreover have "distinct xs" "distinct ys"
    using assms(1,2) by (simp_all add: distinct_map)
  ultimately show ?thesis
    by (simp add: set_eq_iff_mset_eq_distinct)
qed

lemma Key_take_drop:
  "k \<notin> Key ` set (take n fs) \<Longrightarrow> k \<notin> Key ` set (drop n fs) \<Longrightarrow> k \<notin> Key ` set fs"
  by (metis Un_iff append_take_drop_id image_Un set_append)

lemma cre_result:
  assumes fs: "distinct (map Key fs)"
    and d: "distinct (map fst d)" "fst ` set d \<subseteq> Key ` set fs"
    and r: "distinct (map fst r)" "fst ` set r \<subseteq> Key ` set fs"
  shows "mset (fst (count_rule_excess N 0 fs (d, r))) = mset (map entry (drop (nat N) fs))"
    and "mset (snd (count_rule_excess N 0 fs (d, r))) = mset (map entry (take (nat N) fs))"
proof -
  let ?n = "nat N"
  have outside: "map_of d k = None" "map_of r k = None" if "k \<notin> Key ` set fs" for k
    using that d(2) r(2) by (auto simp: map_of_eq_None_iff)
  have "map_of (fst (count_rule_excess N 0 fs (d, r))) = map_of (map entry (drop ?n fs))"
  proof
    fix k
    show "map_of (fst (count_rule_excess N 0 fs (d, r))) k = map_of (map entry (drop ?n fs)) k"
    proof (cases "map_of (map entry (drop ?n fs)) k")
      case None
      then have "k \<notin> Key ` set (drop ?n fs)"
        by (simp add: map_of_eq_None_iff image_image)
      then have "(map_of d |` (- Key ` set (take ?n fs))) k = None"
        using outside(1)[of k] Key_take_drop[of k ?n fs] by (cases "k \<in> Key ` set (take ?n fs)") auto
      with None show ?thesis
        by (simp add: cre_del[OF fs] map_add_def)
    next
      case (Some v)
      then show ?thesis
        by (simp add: cre_del[OF fs] map_add_def)
    qed
  qed
  moreover have "distinct (map fst (map entry (drop ?n fs)))"
    using distinct_drop[OF fs, of ?n] by (simp add: drop_map)
  ultimately show "mset (fst (count_rule_excess N 0 fs (d, r))) = mset (map entry (drop ?n fs))"
    using cre_distinct[OF d(1) r(1)] by (intro alist_mset_eqI) auto
  have "map_of (snd (count_rule_excess N 0 fs (d, r))) = map_of (map entry (take ?n fs))"
  proof
    fix k
    show "map_of (snd (count_rule_excess N 0 fs (d, r))) k = map_of (map entry (take ?n fs)) k"
    proof (cases "map_of (map entry (take ?n fs)) k")
      case None
      then have "k \<notin> Key ` set (take ?n fs)"
        by (simp add: map_of_eq_None_iff image_image)
      then have "(map_of r |` (- Key ` set (drop ?n fs))) k = None"
        using outside(2)[of k] Key_take_drop[of k ?n fs] by (cases "k \<in> Key ` set (drop ?n fs)") auto
      with None show ?thesis
        by (simp add: cre_ret[OF fs] map_add_def)
    next
      case (Some v)
      then show ?thesis
        by (simp add: cre_ret[OF fs] map_add_def)
    qed
  qed
  moreover have "distinct (map fst (map entry (take ?n fs)))"
    using distinct_take[OF fs, of ?n] by (simp add: take_map)
  ultimately show "mset (snd (count_rule_excess N 0 fs (d, r))) = mset (map entry (take ?n fs))"
    using cre_distinct[OF d(1) r(1)] by (intro alist_mset_eqI) auto
qed

lemma classify_count:
  "MaxCount rules > 0 \<Longrightarrow>
   classify rt rules now files =
     count_rule_excess (MaxCount rules) 0 files
       (if MaxAgeDays rules > 0
        then age_rule (cutoffTime rt now (MaxAgeDays rules)) files ([], []) else ([], []))"
  by (simp add: classify_def Let_def count_rule_all_excess)

lemma age_rule_empty:
  "distinct (map Key files) \<Longrightarrow>
   age_rule c files ([], []) =
     (map entry (filter (\<lambda>f. CreatedAt f < c) files),
      map entry (filter (\<lambda>f. \<not> CreatedAt f < c) files))"
  using age_rule_fresh[of files "[]" "[]" c] by simp

lemma entries_filter:
  "distinct (map Key files) \<Longrightarrow>
   distinct (map fst (map entry (filter P files))) \<and>
   fst ` set (map entry (filter P files)) \<subseteq> Key ` set files"
  by (auto simp del: map_map simp: distinct_map_filter)

lemma classify_count_mset:
  assumes "MaxCount rules > 0" "distinct (map Key files)"
  shows "mset (fst (classify rt rules now files)) = mset (map entry (drop (nat (MaxCount rules)) files))"
    and "mset (snd (classify rt rules now files)) = mset (map entry (take (nat (MaxCount rules)) files))"
proof -
  obtain d r where s1: "(if MaxAgeDays rules > 0
        then age_rule (cutoffTime rt now (MaxAgeDays rules)) files ([], []) else ([], [])) = (d, r)"
    by (cases "(if MaxAgeDays rules > 0
        then age_rule (cutoffTime rt now (MaxAgeDays rules)) files ([], []) else ([], []))") simp
  have "distinct (map fst d) \<and> fst ` set d \<subseteq> Key ` set files \<and>
        distinct (map fst r) \<and> fst ` set r \<subseteq> Key ` set files"
    using s1 assms(2) entries_filter[OF assms(2)]
    by (cases "MaxAgeDays rules > 0") (auto simp del: map_map set_map simp: age_rule_empty)
  then show "mset (fst (classify rt rules now files)) = mset (map entry (drop (nat (MaxCount rules)) files))"
    and "mset (snd (classify rt rules now files)) = mset (map entry (take (nat (MaxCount rules)) files))"
    using cre_result[OF assms(2), of d r "MaxCount rules"] by (simp_all add: classify_count[OF assms(1)] s1)
qed

lemma classify_age_only:
  assumes "MaxAgeDays rules > 0" "MaxCount rules \<le> 0" "distinct (map Key files)"
  shows "classify rt rules now files =
     (map entry (filter (\<lambda>f. CreatedAt f < cutoffTime rt now (MaxAgeDays rules)) files),
      map entry (filter (\<lambda>f. \<not> CreatedAt f < cutoffTime rt now (MaxAgeDays rules)) files))"
  using assms by (simp add: classify_def age_rule_empty)

lemma classify_no_rule:
  "MaxAgeDays rules \<le> 0 \<Longrightarrow> MaxCount rules \<le> 0 \<Longrightarrow> classify rt rules now files = ([], [])"
  by (simp add: classify_def)

lemma go_runtime_sort:
  "go_runtime rt \<Longrightarrow> mset (sort_Slice rt xs) = mset xs"
  "go_runtime rt \<Longrightarrow> newest_first (sort_Slice rt xs)"
  by (simp_all add: go_runtime_def)

lemma go_runtime_range_files: "go_runtime rt \<Longrightarrow> mset (range_files rt m) = mset m"
  by (simp add: go_runtime_def)

lemma go_runtime_range_dbs: "go_runtime rt \<Longrightarrow> mset (range_dbs rt m) = mset m"
  by (simp add: go_runtime_def)

lemma sort_Slice_keys:
  "go_runtime rt \<Longrightarrow> distinct (map Key (sort_Slice rt xs)) = distinct (map Key xs)"
  by (metis go_runtime_sort(1) mset_eq_imp_distinct_iff mset_map)

lemma process_db_slices:
  assumes rt: "go_runtime rt" and p: "process_db rt rules g files0 = (del, ret, d)"
  shows "mset del = mset (map snd (fst (classify rt rules (time_Now rt g) (sort_Slice rt files0))))"
    and "mset ret = mset (map snd (snd (classify rt rules (time_Now rt g) (sort_Slice rt files0))))"
    and "newest_first ret"
proof -
  obtain D R where c: "classify rt rules (time_Now rt g) (sort_Slice rt files0) = (D, R)"
    by (cases "classify rt rules (time_Now rt g) (sort_Slice rt files0)") simp
  have del: "del = map snd (range_files rt D)" and ret: "ret = sort_Slice rt (map snd (range_files rt R))"
    using p by (simp_all add: process_db_def Let_def c)
  show "mset del = mset (map snd (fst (classify rt rules (time_Now rt g) (sort_Slice rt files0))))"
    by (simp add: del c go_runtime_range_files[OF rt])
  show "mset ret = mset (map snd (snd (classify rt rules (time_Now rt g) (sort_Slice rt files0))))"
    by (simp add: ret c go_runtime_sort(1)[OF rt] go_runtime_range_files[OF rt])
  show "newest_first ret"
    by (simp add: ret go_runtime_sort(2)[OF rt])
qed

lemma process_db_stats:
  assumes rt: "go_runtime rt" and p: "process_db rt rules g files0 = (del, ret, d)"
  shows "d = \<lparr>TotalFiles = int (length files0),
               DeletedFiles = int (length del),
               RetainedFiles = int (length ret),
               DeletedSize = sum_sizes del,
               RetainedSize = sum_sizes ret,
               OldestRetained = (if ret \<noteq> [] then CreatedAt (last ret) else 0),
               NewestRetained = (if ret \<noteq> [] then CreatedAt (hd ret) else 0)\<rparr>"
proof -
  have "length (sort_Slice rt files0) = length files0"
    by (metis go_runtime_sort(1)[OF rt] size_mset)
  then show ?thesis
    using p by (auto simp: process_db_def Let_def split: prod.splits)
qed

lemma process_db_count:
  assumes rt: "go_runtime rt" and k: "distinct (map Key files0)" and n: "MaxCount rules > 0"
    and p: "process_db rt rules g files0 = (del, ret, d)"
  shows "mset del = mset (drop (nat (MaxCount rules)) (sort_Slice rt files0))"
    and "mset ret = mset (take (nat (MaxCount rules)) (sort_Slice rt files0))"
proof -
  have k': "distinct (map Key (sort_Slice rt files0))"
    using k by (simp add: sort_Slice_keys[OF rt])
  show "mset del = mset (drop (nat (MaxCount rules)) (sort_Slice rt files0))"
    using classify_count_mset(1)[OF n k', where now = "time_Now rt g" and rt = rt] process_db_slices(1)[OF rt p]
    by (metis map_snd_entry mset_map)
  show "mset ret = mset (take (nat (MaxCount rules)) (sort_Slice rt files0))"
    using classify_count_mset(2)[OF n k', where now = "time_Now rt g" and rt = rt] process_db_slices(2)[OF rt p]
    by (metis map_snd_entry mset_map)
qed

lemma mset_insert_file: "mset (insert_file x ys) = add_mset x (mset ys)"
  by (induction ys) simp_all

lemma set_insert_file: "set (insert_file x ys) = insert x (set ys)"
  by (induction ys) auto

lemma newest_first_insert_file: "newest_first ys \<Longrightarrow> newest_first (insert_file x ys)"
  by (induction ys) (auto simp: newest_first_def set_insert_file)

lemma insertionSort_fold:
  "mset (fold insert_file xs acc) = mset xs + mset acc"
  "newest_first acc \<Longrightarrow> newest_first (fold insert_file xs acc)"
  by (induction xs arbitrary: acc) (simp_all add: mset_insert_file newest_first_insert_file)

lemma insertionSort_sorts:
  "mset (insertionSort xs) = mset xs" "newest_first (insertionSort xs)"
proof -
  have "newest_first []"
    by (simp add: newest_first_def)
  then show "newest_first (insertionSort xs)"
    unfolding insertionSort_def by (rule insertionSort_fold(2))
  show "mset (insertionSort xs) = mset xs"
    by (simp add: insertionSort_def insertionSort_fold(1))
qed

lemma go_runtime_plain: "go_runtime (plain_runtime now)"
  by (simp add: go_runtime_def plain_runtime_def insertionSort_sorts)

lemma go_runtime_reversed: "go_runtime (reversed_runtime now)"
  by (simp add: go_runtime_def reversed_runtime_def insertionSort_sorts)

lemmas demo_defs = demo_a_def demo_b_def demo_c_def day_def
lemmas run_defs = process_db_def plain_runtime_def insertionSort_def classify_def cutoffTime_def sum_sizes_def

section \<open>The count rule overrides the age rule\<close>

text \<open>
  Claim C1. In a database folder with unique keys where both rules are enabled
  (\<open>MaxAgeDays > 0\<close> and \<open>MaxCount > 0\<close>), the retained files are exactly the first
  \<open>MaxCount\<close> files of the folder sorted newest first and the files to delete are exactly
  the remaining ones, whatever the age rule marked; a folder with a single file keeps it,
  however old it is.
\<close>

theorem count_rule_is_authoritative:
  assumes "go_runtime rt" and "distinct (map Key files0)"
    and "MaxAgeDays rules > 0" and "MaxCount rules > 0"
    and "process_db rt rules dbFolder files0 = (del, ret, dbStats)"
  shows "mset ret = mset (take (nat (MaxCount rules)) (sort_Slice rt files0)) \<and>
         mset del = mset (drop (nat (MaxCount rules)) (sort_Slice rt files0)) \<and>
         (length files0 = 1 \<longrightarrow> ret = files0 \<and> del = [])"
proof -
  note pc = process_db_count[OF assms(1,2,4,5)]
  have "ret = files0 \<and> del = []" if one: "length files0 = 1"
  proof -
    obtain f where f: "files0 = [f]"
      using one by (cases files0) simp_all
    have "mset (sort_Slice rt files0) = {#f#}"
      by (simp add: go_runtime_sort(1)[OF assms(1)] f)
    then have "sort_Slice rt files0 = [f]"
      by (metis mset.simps(1) mset.simps(2) mset_eq_setD mset_single_iff_right mset_zero_iff_right list.exhaust)
    moreover obtain m where "nat (MaxCount rules) = Suc m"
      using assms(4) by (cases "nat (MaxCount rules)") simp_all
    ultimately have "mset ret = {#f#}" "mset del = {#}"
      using pc by simp_all
    then show ?thesis
      using f by (cases ret) (simp_all)
  qed
  then show ?thesis
    using pc by simp
qed

theorem count_rule_is_authoritative_witness:
  "go_runtime (plain_runtime (100 * day)) \<and> distinct (map Key [demo_a, demo_b, demo_c]) \<and>
   process_db (plain_runtime (100 * day)) \<lparr>MaxAgeDays = 5, MaxCount = 2, Enabled = True\<rparr> ''db''
     [demo_a, demo_b, demo_c] =
     ([demo_a], [demo_c, demo_b],
      \<lparr>TotalFiles = 3, DeletedFiles = 1, RetainedFiles = 2, DeletedSize = 7, RetainedSize = 17,
       OldestRetained = 90 * day, NewestRetained = 98 * day\<rparr>) \<and>
   CreatedAt demo_b < cutoffTime (plain_runtime (100 * day)) (100 * day) 5 \<and>
   mset [demo_c, demo_b] =
     mset (take 2 (sort_Slice (plain_runtime (100 * day)) [demo_a, demo_b, demo_c])) \<and>
   length [demo_a] = 1 \<and> CreatedAt demo_a < cutoffTime (plain_runtime (100 * day)) (100 * day) 5 \<and>
   process_db (plain_runtime (100 * day)) \<lparr>MaxAgeDays = 5, MaxCount = 2, Enabled = True\<rparr> ''db''
     [demo_a] =
     ([], [demo_a],
      \<lparr>TotalFiles = 1, DeletedFiles = 0, RetainedFiles = 1, DeletedSize = 0, RetainedSize = 7,
       OldestRetained = 60 * day, NewestRetained = 60 * day\<rparr>)"
proof -
  let ?rt = "plain_runtime (100 * day)"
  let ?rules = "\<lparr>MaxAgeDays = 5, MaxCount = 2, Enabled = True\<rparr>"
  have k: "distinct (map Key [demo_a, demo_b, demo_c])" "distinct (map Key [demo_a])"
    by (simp_all add: demo_defs)
  have p: "process_db ?rt ?rules ''db'' [demo_a, demo_b, demo_c] =
     ([demo_a], [demo_c, demo_b],
      \<lparr>TotalFiles = 3, DeletedFiles = 1, RetainedFiles = 2, DeletedSize = 7, RetainedSize = 17,
       OldestRetained = 90 * day, NewestRetained = 98 * day\<rparr>)"
    by (simp add: run_defs demo_defs)
  have p1: "process_db ?rt ?rules ''db'' [demo_a] =
     ([], [demo_a],
      \<lparr>TotalFiles = 1, DeletedFiles = 0, RetainedFiles = 1, DeletedSize = 0, RetainedSize = 7,
       OldestRetained = 60 * day, NewestRetained = 60 * day\<rparr>)"
    by (simp add: run_defs demo_defs)
  have b: "CreatedAt demo_b < cutoffTime (plain_runtime (100 * day)) (100 * day) 5"
    "CreatedAt demo_a < cutoffTime (plain_runtime (100 * day)) (100 * day) 5"
    by (simp_all add: demo_defs cutoffTime_def plain_runtime_def)
  show ?thesis
    using count_rule_is_authoritative[OF go_runtime_plain k(1) _ _ p]
      count_rule_is_authoritative[OF go_runtime_plain k(2) _ _ p1] go_runtime_plain k p p1 b
    by simp
qed

section \<open>Each rule alone\<close>

lemma newest_first_split:
  "newest_first fs \<Longrightarrow> x \<in> set (take n fs) \<Longrightarrow> y \<in> set (drop n fs) \<Longrightarrow> CreatedAt y \<le> CreatedAt x"
proof -
  assume a: "newest_first fs" "x \<in> set (take n fs)" "y \<in> set (drop n fs)"
  have "sorted_wrt (\<lambda>a b. CreatedAt b \<le> CreatedAt a) (take n fs @ drop n fs)"
    using a(1) by (simp add: newest_first_def)
  then show ?thesis
    using a(2,3) unfolding sorted_wrt_append by blast
qed

text \<open>
  Claim C3. In a database folder with unique keys, \<open>M\<close> files, and only the count rule
  enabled (\<open>MaxCount = N > 0\<close>, \<open>MaxAgeDays \<le> 0\<close>), exactly \<open>max 0 (M - N)\<close> files are
  to delete, \<open>min N M\<close> are retained, the two slices partition the folder, and every
  retained file is at least as recent as every file to delete: the retained files are the
  \<open>N\<close> files with the largest \<open>CreatedAt\<close>.
\<close>

theorem count_rule_only:
  assumes "go_runtime rt" and "distinct (map Key files0)"
    and "MaxCount rules > 0" and "MaxAgeDays rules \<le> 0"
    and "process_db rt rules dbFolder files0 = (del, ret, dbStats)"
  shows "DeletedFiles dbStats = max 0 (int (length files0) - MaxCount rules) \<and>
         int (length del) = max 0 (int (length files0) - MaxCount rules) \<and>
         int (length ret) = min (MaxCount rules) (int (length files0)) \<and>
         mset ret + mset del = mset files0 \<and>
         (\<forall>r \<in> set ret. \<forall>d \<in> set del. CreatedAt d \<le> CreatedAt r)"
proof -
  let ?fs = "sort_Slice rt files0"
  let ?n = "nat (MaxCount rules)"
  note pc = process_db_count[OF assms(1,2,3,5)]
  have len: "length ?fs = length files0"
    by (metis go_runtime_sort(1)[OF assms(1)] size_mset)
  have ld: "length del = length files0 - ?n"
    using pc(1) len by (metis length_drop size_mset)
  have lr: "length ret = min (length files0) ?n"
    using pc(2) len by (metis length_take size_mset)
  have part: "mset ret + mset del = mset files0"
    using pc go_runtime_sort(1)[OF assms(1), of files0]
    by (metis append_take_drop_id mset_append)
  have ord: "CreatedAt d \<le> CreatedAt r" if "r \<in> set ret" "d \<in> set del" for r d
  proof -
    have "r \<in> set (take ?n ?fs)" "d \<in> set (drop ?n ?fs)"
      using that pc by (metis mset_eq_setD)+
    then show ?thesis
      using newest_first_split[OF go_runtime_sort(2)[OF assms(1)]] by blast
  qed
  have "DeletedFiles dbStats = int (length del)"
    using process_db_stats[OF assms(1,5)] by simp
  then show ?thesis
    using ld lr part ord assms(3) by auto
qed

theorem count_rule_only_witness:
  "go_runtime (plain_runtime (100 * day)) \<and> distinct (map Key [demo_a, demo_b, demo_c]) \<and>
   process_db (plain_runtime (100 * day)) \<lparr>MaxAgeDays = 0, MaxCount = 1, Enabled = True\<rparr> ''db''
     [demo_a, demo_b, demo_c] =
     ([demo_b, demo_a], [demo_c],
      \<lparr>TotalFiles = 3, DeletedFiles = 2, RetainedFiles = 1, DeletedSize = 15, RetainedSize = 9,
       OldestRetained = 98 * day, NewestRetained = 98 * day\<rparr>) \<and>
   int (length [demo_b, demo_a]) = max 0 (int (length [demo_a, demo_b, demo_c]) - 1) \<and>
   CreatedAt demo_b \<le> CreatedAt demo_c \<and> CreatedAt demo_a \<le> CreatedAt demo_c"
proof -
  let ?rt = "plain_runtime (100 * day)"
  let ?rules = "\<lparr>MaxAgeDays = 0, MaxCount = 1, Enabled = True\<rparr>"
  have k: "distinct (map Key [demo_a, demo_b, demo_c])"
    by (simp add: demo_defs)
  have p: "process_db ?rt ?rules ''db'' [demo_a, demo_b, demo_c] =
     ([demo_b, demo_a], [demo_c],
      \<lparr>TotalFiles = 3, DeletedFiles = 2, RetainedFiles = 1, DeletedSize = 15, RetainedSize = 9,
       OldestRetained = 98 * day, NewestRetained = 98 * day\<rparr>)"
    by (simp add: run_defs demo_defs)
  show ?thesis
    using count_rule_only[OF go_runtime_plain k _ _ p] go_runtime_plain k p
    by simp
qed

lemma process_db_age:
  assumes "go_runtime rt" and "distinct (map Key files0)"
    and "MaxAgeDays rules > 0" and "MaxCount rules \<le> 0"
    and "process_db rt rules dbFolder files0 = (del, ret, dbStats)"
  shows "mset del = filter_mset (\<lambda>f. CreatedAt f < cutoffTime rt (time_Now rt dbFolder) (MaxAgeDays rules)) (mset files0)"
    and "mset ret = filter_mset (\<lambda>f. \<not> CreatedAt f < cutoffTime rt (time_Now rt dbFolder) (MaxAgeDays rules)) (mset files0)"
proof -
  let ?fs = "sort_Slice rt files0"
  let ?c = "cutoffTime rt (time_Now rt dbFolder) (MaxAgeDays rules)"
  have k': "distinct (map Key ?fs)"
    using assms(2) by (simp add: sort_Slice_keys[OF assms(1)])
  note cl = classify_age_only[OF assms(3,4) k', where now = "time_Now rt dbFolder" and rt = rt]
  have "mset del = mset (filter (\<lambda>f. CreatedAt f < ?c) ?fs)"
    using process_db_slices(1)[OF assms(1,5)] by (simp only: cl fst_conv map_snd_entry)
  then show "mset del = filter_mset (\<lambda>f. CreatedAt f < ?c) (mset files0)"
    by (simp only: mset_filter go_runtime_sort(1)[OF assms(1)])
  have "mset ret = mset (filter (\<lambda>f. \<not> CreatedAt f < ?c) ?fs)"
    using process_db_slices(2)[OF assms(1,5)] by (simp only: cl snd_conv map_snd_entry)
  then show "mset ret = filter_mset (\<lambda>f. \<not> CreatedAt f < ?c) (mset files0)"
    by (simp only: mset_filter go_runtime_sort(1)[OF assms(1)])
qed




section \<open>The two slices of a database folder\<close>

lemmas exec_defs = Execute_def s3_List_def s3_Delete_def group_files_def add_file_def plain_Dir_def
  update_overall_def empty_stats_def

text \<open>
  Claim C2, as stated, fails: with the policy enabled and both thresholds at zero, the one
  file of the folder is in neither slice. It is counted in \<open>TotalFiles\<close> only, and
  \<open>RetainedFiles\<close> is 0.
\<close>

theorem no_rule_leaves_files_unclassified:
  "process_db (plain_runtime (100 * day)) \<lparr>MaxAgeDays = 0, MaxCount = 0, Enabled = True\<rparr> ''db''
     [demo_a] =
     ([], [],
      \<lparr>TotalFiles = 1, DeletedFiles = 0, RetainedFiles = 0, DeletedSize = 0, RetainedSize = 0,
       OldestRetained = 0, NewestRetained = 0\<rparr>) \<and>
   demo_a \<notin> set (fst (snd (process_db (plain_runtime (100 * day))
     \<lparr>MaxAgeDays = 0, MaxCount = 0, Enabled = True\<rparr> ''db'' [demo_a]))) \<and>
   stats (Execute (plain_runtime (100 * day)) \<lparr>MaxAgeDays = 0, MaxCount = 0, Enabled = True\<rparr> True
     \<lparr>objects = [demo_a], list_fails = False, delete_fails = (\<lambda>k. False)\<rparr>) =
     Some \<lparr>TotalFiles = 1, DeletedFiles = 0, RetainedFiles = 0, DeletedSize = 0, RetainedSize = 0,
       OldestRetained = 0, NewestRetained = 0,
       PerDatabase = [''db'' \<mapsto>
         \<lparr>TotalFiles = 1, DeletedFiles = 0, RetainedFiles = 0, DeletedSize = 0, RetainedSize = 0,
          OldestRetained = 0, NewestRetained = 0\<rparr>]\<rparr>"
  by (simp add: run_defs demo_defs exec_defs)

text \<open>
  Claim C2, amended. In a database folder with unique keys: when at least one rule is
  enabled the retain and delete slices partition the folder's files, each file in exactly
  one of them; when neither rule is enabled both slices are empty, so no file is deleted,
  \<open>DeletedFiles\<close> and \<open>RetainedFiles\<close> are 0 and the files are left unclassified. In
  both cases the folder adds the number of its files to the overall \<open>TotalFiles\<close>.
\<close>

theorem classification_partition:
  assumes "go_runtime rt" and "distinct (map Key files0)"
    and "process_db rt rules dbFolder files0 = (del, ret, dbStats)"
  shows "((MaxAgeDays rules > 0 \<or> MaxCount rules > 0) \<longrightarrow>
            mset ret + mset del = mset files0 \<and> set ret \<inter> set del = {}) \<and>
         (MaxAgeDays rules \<le> 0 \<and> MaxCount rules \<le> 0 \<longrightarrow>
            del = [] \<and> ret = [] \<and> DeletedFiles dbStats = 0 \<and> RetainedFiles dbStats = 0) \<and>
         TotalFiles dbStats = int (length files0) \<and>
         TotalFiles (update_overall st dbFolder ret dbStats) = TotalFiles st + int (length files0)"
proof -
  note st = process_db_stats[OF assms(1,3)]
  have part: "mset ret + mset del = mset files0" if "MaxAgeDays rules > 0 \<or> MaxCount rules > 0"
  proof (cases "MaxCount rules > 0")
    case True
    show ?thesis
      using process_db_count[OF assms(1,2) True assms(3)] go_runtime_sort(1)[OF assms(1), of files0]
      by (metis append_take_drop_id mset_append)
  next
    case False
    then have "MaxAgeDays rules > 0" "MaxCount rules \<le> 0"
      using that by simp_all
    from process_db_age[OF assms(1,2) this assms(3)] show ?thesis
      by simp
  qed
  have disj: "set ret \<inter> set del = {}" if p: "mset ret + mset del = mset files0"
  proof -
    have "distinct files0"
      using assms(2) by (simp add: distinct_map)
    then have "distinct (ret @ del)"
      using p by (metis mset_append mset_eq_imp_distinct_iff)
    then show ?thesis
      by simp
  qed
  have none: "del = [] \<and> ret = []" if "MaxAgeDays rules \<le> 0" "MaxCount rules \<le> 0"
    using process_db_slices(1,2)[OF assms(1,3)] that by (simp add: classify_no_rule)
  have tot: "TotalFiles dbStats = int (length files0)"
    by (subst st) simp
  have "DeletedFiles dbStats = int (length del)" "RetainedFiles dbStats = int (length ret)"
    by (subst st, simp)+
  then show ?thesis
    using part disj none tot by (auto simp: update_overall_def)
qed

theorem classification_partition_witness:
  "go_runtime (plain_runtime (100 * day)) \<and> distinct (map Key [demo_b, demo_c, demo_a]) \<and>
   process_db (plain_runtime (100 * day)) \<lparr>MaxAgeDays = 30, MaxCount = 2, Enabled = True\<rparr> ''db''
     [demo_b, demo_c, demo_a] =
     ([demo_a], [demo_c, demo_b],
      \<lparr>TotalFiles = 3, DeletedFiles = 1, RetainedFiles = 2, DeletedSize = 7, RetainedSize = 17,
       OldestRetained = 90 * day, NewestRetained = 98 * day\<rparr>) \<and>
   mset [demo_c, demo_b] + mset [demo_a] = mset [demo_b, demo_c, demo_a] \<and>
   set [demo_c, demo_b] \<inter> set [demo_a] = {} \<and>
   process_db (plain_runtime (100 * day)) \<lparr>MaxAgeDays = 0, MaxCount = - 1, Enabled = True\<rparr> ''db''
     [demo_b, demo_c, demo_a] =
     ([], [],
      \<lparr>TotalFiles = 3, DeletedFiles = 0, RetainedFiles = 0, DeletedSize = 0, RetainedSize = 0,
       OldestRetained = 0, NewestRetained = 0\<rparr>) \<and>
   TotalFiles (update_overall empty_stats ''db'' []
      \<lparr>TotalFiles = 3, DeletedFiles = 0, RetainedFiles = 0, DeletedSize = 0, RetainedSize = 0,
       OldestRetained = 0, NewestRetained = 0\<rparr>) = TotalFiles empty_stats + 3"
proof -
  let ?rt = "plain_runtime (100 * day)"
  let ?rules = "\<lparr>MaxAgeDays = 30, MaxCount = 2, Enabled = True\<rparr>"
  let ?none = "\<lparr>MaxAgeDays = 0, MaxCount = - 1, Enabled = True\<rparr>"
  have k: "distinct (map Key [demo_b, demo_c, demo_a])"
    by (simp add: demo_defs)
  have p: "process_db ?rt ?rules ''db'' [demo_b, demo_c, demo_a] =
     ([demo_a], [demo_c, demo_b],
      \<lparr>TotalFiles = 3, DeletedFiles = 1, RetainedFiles = 2, DeletedSize = 7, RetainedSize = 17,
       OldestRetained = 90 * day, NewestRetained = 98 * day\<rparr>)"
    by (simp add: run_defs demo_defs)
  have q: "process_db ?rt ?none ''db'' [demo_b, demo_c, demo_a] =
     ([], [],
      \<lparr>TotalFiles = 3, DeletedFiles = 0, RetainedFiles = 0, DeletedSize = 0, RetainedSize = 0,
       OldestRetained = 0, NewestRetained = 0\<rparr>)"
    by (simp add: run_defs demo_defs)
  show ?thesis
    using classification_partition[OF go_runtime_plain k p, of empty_stats]
      classification_partition[OF go_runtime_plain k q, of empty_stats] go_runtime_plain k p q
    by (simp add: demo_defs)
qed

section \<open>Deleting stops at the first failure\<close>

lemma deleteFiles_run:
  "deleteFiles s fs =
     (s\<lparr>objects := filter (\<lambda>f. Key f \<notin> set (takeWhile (\<lambda>k. \<not> delete_fails s k) (map Key fs))) (objects s)\<rparr>,
      takeWhile (\<lambda>k. \<not> delete_fails s k) (map Key fs) @
        take 1 (dropWhile (\<lambda>k. \<not> delete_fails s k) (map Key fs)),
      (case dropWhile (\<lambda>k. \<not> delete_fails s k) (map Key fs) of
         [] \<Rightarrow> None | k # _ \<Rightarrow> Some (FailedToDelete k)))"
proof (induction fs arbitrary: s)
  case Nil
  show ?case by simp
next
  case (Cons f fs)
  show ?case
  proof (cases "delete_fails s (Key f)")
    case True
    then show ?thesis by (simp add: s3_Delete_def)
  next
    case False
    let ?s' = "s\<lparr>objects := filter (\<lambda>g. Key g \<noteq> Key f) (objects s)\<rparr>"
    have "s3_Delete s (Key f) = Inr ?s'"
      using False by (simp add: s3_Delete_def)
    then show ?thesis
      using False Cons.IH[of ?s'] by (auto simp: conj_commute intro!: filter_cong)
  qed
qed


lemma process_dbs_dry:
  "process_dbs rt rules True gs st s cs =
     \<lparr>stats = Some (fold (db_step rt rules) gs st), err = None, calls = cs, store = s\<rparr>"
  by (induction gs arbitrary: st) (auto simp: db_step_def split: prod.splits)

lemma dropWhile_Nil_iff: "dropWhile P xs = [] \<longleftrightarrow> (\<forall>x \<in> set xs. P x)"
  by (induction xs) auto

lemma process_dbs_live:
  "process_dbs rt rules False gs st s cs =
     \<lparr>stats = Some (fold (db_step rt rules) (folders_reached rt rules (delete_fails s) gs) st),
      err = (case dropWhile (\<lambda>k. \<not> delete_fails s k) (planned rt rules gs) of
               [] \<Rightarrow> None | k # _ \<Rightarrow> Some (FailedToDelete k)),
      calls = cs @ takeWhile (\<lambda>k. \<not> delete_fails s k) (planned rt rules gs) @
                take 1 (dropWhile (\<lambda>k. \<not> delete_fails s k) (planned rt rules gs)),
      store = s\<lparr>objects := filter (\<lambda>f. Key f \<notin> set (takeWhile (\<lambda>k. \<not> delete_fails s k)
                                  (planned rt rules gs))) (objects s)\<rparr>\<rparr>"
proof (induction gs arbitrary: st s cs)
  case Nil
  show ?case by (simp add: planned_def)
next
  case (Cons g gs)
  obtain dbFolder files0 where g: "g = (dbFolder, files0)"
    by (cases g)
  obtain del ret d where p: "process_db rt rules dbFolder files0 = (del, ret, d)"
    by (cases "process_db rt rules dbFolder files0")
  let ?ok = "\<lambda>k. \<not> delete_fails s k"
  let ?ks = "map Key del"
  have ks: "delete_keys rt rules g = ?ks"
    by (simp add: delete_keys_def g p)
  have pl: "planned rt rules (g # gs) = ?ks @ planned rt rules gs"
    by (simp add: planned_def ks)
  have step: "db_step rt rules g st = update_overall st dbFolder ret d"
    by (simp add: db_step_def g p)
  show ?case
  proof (cases "\<forall>k \<in> set ?ks. ?ok k")
    case True
    then have dw: "dropWhile ?ok ?ks = []" and tw: "takeWhile ?ok ?ks = ?ks"
      by (simp_all add: dropWhile_Nil_iff)
    have nf: "\<not> list_ex (delete_fails s) (delete_keys rt rules g)"
      using True by (simp add: ks list_ex_iff)
    let ?s' = "s\<lparr>objects := filter (\<lambda>f. Key f \<notin> set ?ks) (objects s)\<rparr>"
    have df: "deleteFiles s del = (?s', ?ks, None)"
      by (simp add: deleteFiles_run dw tw)
    have tw2: "takeWhile ?ok (?ks @ planned rt rules gs) = ?ks @ takeWhile ?ok (planned rt rules gs)"
      using True by (intro takeWhile_append2) blast
    have dw2: "dropWhile ?ok (?ks @ planned rt rules gs) = dropWhile ?ok (planned rt rules gs)"
      using True by (intro dropWhile_append2) blast
    have lhs: "process_dbs rt rules False (g # gs) st s cs =
        process_dbs rt rules False gs (update_overall st dbFolder ret d) ?s' (cs @ ?ks)"
      by (simp add: g p df Let_def)
    have fr: "folders_reached rt rules (delete_fails s) (g # gs) =
        g # folders_reached rt rules (delete_fails s) gs"
      using nf by simp
    have flt: "filter (\<lambda>f. Key f \<notin> set (takeWhile ?ok (planned rt rules gs)))
                 (filter (\<lambda>f. Key f \<notin> set ?ks) (objects s)) =
               filter (\<lambda>f. Key f \<notin> set (?ks @ takeWhile ?ok (planned rt rules gs))) (objects s)"
      by (auto intro!: filter_cong)
    show ?thesis
      unfolding lhs Cons.IH[of "update_overall st dbFolder ret d" ?s' "cs @ ?ks"] fr pl tw2 dw2
      using flt by (simp add: step)
  next
    case False
    then obtain k more where dw: "dropWhile ?ok ?ks = k # more"
      by (cases "dropWhile ?ok ?ks") (auto simp: dropWhile_Nil_iff)
    have fl: "list_ex (delete_fails s) (delete_keys rt rules g)"
      using False by (simp add: ks list_ex_iff)
    have ex: "\<exists>x \<in> set ?ks. \<not> ?ok x"
      using False by blast
    have tw2: "takeWhile ?ok (?ks @ planned rt rules gs) = takeWhile ?ok ?ks"
      using ex by (metis takeWhile_append1)
    have dw2: "dropWhile ?ok (?ks @ planned rt rules gs) = dropWhile ?ok ?ks @ planned rt rules gs"
      using ex by (metis dropWhile_append1)
    have fr: "folders_reached rt rules (delete_fails s) (g # gs) = [g]"
      using fl by simp
    show ?thesis
      unfolding fr pl tw2 dw2
      by (simp add: g p deleteFiles_run dw db_step_def Let_def)
  qed
qed


lemma folders_reached_all:
  "\<forall>k \<in> set (planned rt rules gs). \<not> fails k \<Longrightarrow> folders_reached rt rules fails gs = gs"
  by (induction gs) (auto simp: planned_def list_ex_iff)

lemma Execute_enabled:
  assumes "go_runtime rt" "Enabled rules" "\<not> list_fails s"
  shows "Execute rt rules dryRun s = process_dbs rt rules dryRun (db_folders rt s) empty_stats s []"
proof (cases "objects s = []")
  case True
  have "mset (range_dbs rt []) = {#}"
    using go_runtime_range_dbs[OF assms(1), of "[]"] by simp
  then have "db_folders rt s = []"
    by (simp add: db_folders_def True group_files_def)
  then show ?thesis
    using assms(2,3) True by (simp add: Execute_def s3_List_def)
next
  case False
  then show ?thesis
    using assms(2,3) by (simp add: Execute_def s3_List_def db_folders_def)
qed

text \<open>
  Claim C5. In a live run with the policy enabled and a listing that succeeds, the delete
  calls issued are the calls of the whole run, over all database folders, up to and
  including the first one that fails, and no call follows it; the run returns the error of
  that call together with the statistics accumulated over the folders reached; the objects
  whose calls succeeded before the failure are gone from the store and stay so.
\<close>

theorem fail_fast:
  assumes "go_runtime rt" and "Enabled rules" and "\<not> list_fails s"
  shows "calls (Execute rt rules False s) =
           takeWhile (\<lambda>k. \<not> delete_fails s k) (planned rt rules (db_folders rt s)) @
           take 1 (dropWhile (\<lambda>k. \<not> delete_fails s k) (planned rt rules (db_folders rt s))) \<and>
         err (Execute rt rules False s) =
           (case dropWhile (\<lambda>k. \<not> delete_fails s k) (planned rt rules (db_folders rt s)) of
              [] \<Rightarrow> None | k # _ \<Rightarrow> Some (FailedToDelete k)) \<and>
         stats (Execute rt rules False s) =
           Some (fold (db_step rt rules)
                   (folders_reached rt rules (delete_fails s) (db_folders rt s)) empty_stats) \<and>
         objects (store (Execute rt rules False s)) =
           filter (\<lambda>f. Key f \<notin> set (takeWhile (\<lambda>k. \<not> delete_fails s k)
                                        (planned rt rules (db_folders rt s)))) (objects s)"
  by (simp add: Execute_enabled[OF assms] process_dbs_live)

theorem fail_fast_witness:
  "go_runtime (plain_runtime 100) \<and>
   planned (plain_runtime 100) \<lparr>MaxAgeDays = 0, MaxCount = 1, Enabled = True\<rparr>
     (db_folders (plain_runtime 100) (two_folders (\<lambda>k. k = ''a/1''))) = [''a/2'', ''a/1'', ''b/1''] \<and>
   calls (Execute (plain_runtime 100) \<lparr>MaxAgeDays = 0, MaxCount = 1, Enabled = True\<rparr> False
     (two_folders (\<lambda>k. k = ''a/1''))) = [''a/2'', ''a/1''] \<and>
   err (Execute (plain_runtime 100) \<lparr>MaxAgeDays = 0, MaxCount = 1, Enabled = True\<rparr> False
     (two_folders (\<lambda>k. k = ''a/1''))) = Some (FailedToDelete ''a/1'') \<and>
   map Key (objects (store (Execute (plain_runtime 100) \<lparr>MaxAgeDays = 0, MaxCount = 1, Enabled = True\<rparr>
     False (two_folders (\<lambda>k. k = ''a/1''))))) = [''a/1'', ''b/1'', ''a/3'', ''b/2'']"
proof -
  let ?rt = "plain_runtime 100"
  let ?rules = "\<lparr>MaxAgeDays = 0, MaxCount = 1, Enabled = True\<rparr>"
  let ?s = "two_folders (\<lambda>k. k = ''a/1'')"
  have gs: "db_folders ?rt ?s =
      [(''a'', [\<lparr>Key = ''a/1'', CreatedAt = 10, Size = 1\<rparr>, \<lparr>Key = ''a/2'', CreatedAt = 20, Size = 2\<rparr>,
                \<lparr>Key = ''a/3'', CreatedAt = 30, Size = 8\<rparr>]),
       (''b'', [\<lparr>Key = ''b/1'', CreatedAt = 10, Size = 4\<rparr>, \<lparr>Key = ''b/2'', CreatedAt = 20, Size = 16\<rparr>])]"
    by (simp add: db_folders_def two_folders_def plain_runtime_def group_files_def add_file_def plain_Dir_def)
  have pl: "planned ?rt ?rules (db_folders ?rt ?s) = [''a/2'', ''a/1'', ''b/1'']"
    unfolding gs by (simp add: planned_def delete_keys_def run_defs)
  have en: "Enabled ?rules" "\<not> list_fails ?s" "delete_fails ?s = (\<lambda>k. k = ''a/1'')"
    "map Key (objects ?s) = [''a/1'', ''a/2'', ''b/1'', ''a/3'', ''b/2'']"
    by (simp_all add: two_folders_def)
  note ff = fail_fast[OF go_runtime_plain en(1,2), unfolded pl en(3)]
  have "map Key (filter (\<lambda>f. Key f \<notin> set [''a/2'']) (objects ?s)) = [''a/1'', ''b/1'', ''a/3'', ''b/2'']"
    by (simp add: two_folders_def)
  then show ?thesis
    using ff pl go_runtime_plain by simp
qed


section \<open>Dry run and disabled policy\<close>

lemma Execute_dry:
  "calls (Execute rt rules True s) = []" "store (Execute rt rules True s) = s"
  "err (Execute rt rules True s) = (if Enabled rules \<and> list_fails s then Some FailedToList else None)"
  by (simp_all add: Execute_def s3_List_def process_dbs_dry)

lemma Execute_live_stats:
  assumes "err (Execute rt rules False s) = None"
  shows "stats (Execute rt rules True s) = stats (Execute rt rules False s)"
proof (cases "Enabled rules \<and> \<not> list_fails s \<and> objects s \<noteq> []")
  case True
  let ?gs = "range_dbs rt (group_files (path_Dir rt) (objects s))"
  have live: "Execute rt rules False s = process_dbs rt rules False ?gs empty_stats s []"
    and dry: "Execute rt rules True s = process_dbs rt rules True ?gs empty_stats s []"
    using True by (simp_all add: Execute_def s3_List_def)
  have "dropWhile (\<lambda>k. \<not> delete_fails s k) (planned rt rules ?gs) = []"
    using assms unfolding live process_dbs_live by (simp split: list.splits)
  then have "\<forall>k \<in> set (planned rt rules ?gs). \<not> delete_fails s k"
    by (simp add: dropWhile_Nil_iff)
  then have "folders_reached rt rules (delete_fails s) ?gs = ?gs"
    by (rule folders_reached_all)
  then show ?thesis
    unfolding live dry process_dbs_live process_dbs_dry by simp
next
  case False
  then show ?thesis
    by (auto simp: Execute_def s3_List_def)
qed

text \<open>
  Claim C6. Whatever the listing, the policy and the classification, a dry run issues no
  delete call and leaves the store as it was; its statistics are those of the evaluation
  of every database folder, the same statistics a live run returns when no delete call
  fails.
\<close>

theorem dry_run_never_deletes:
  "calls (Execute rt rules True s) = [] \<and> store (Execute rt rules True s) = s \<and>
   (Enabled rules \<and> \<not> list_fails s \<and> objects s \<noteq> [] \<longrightarrow>
      stats (Execute rt rules True s) =
        Some (fold (db_step rt rules) (db_folders rt s) empty_stats) \<and>
      err (Execute rt rules True s) = None) \<and>
   (err (Execute rt rules False s) = None \<longrightarrow>
      stats (Execute rt rules True s) = stats (Execute rt rules False s))"
  using Execute_live_stats[of rt rules s]
  by (simp add: Execute_dry) (simp add: Execute_def s3_List_def process_dbs_dry db_folders_def)

theorem dry_run_never_deletes_witness:
  "err (Execute (plain_runtime 100) \<lparr>MaxAgeDays = 0, MaxCount = 1, Enabled = True\<rparr> False
     (two_folders (\<lambda>k. False))) = None \<and>
   calls (Execute (plain_runtime 100) \<lparr>MaxAgeDays = 0, MaxCount = 1, Enabled = True\<rparr> False
     (two_folders (\<lambda>k. False))) = [''a/2'', ''a/1'', ''b/1''] \<and>
   calls (Execute (plain_runtime 100) \<lparr>MaxAgeDays = 0, MaxCount = 1, Enabled = True\<rparr> True
     (two_folders (\<lambda>k. False))) = [] \<and>
   store (Execute (plain_runtime 100) \<lparr>MaxAgeDays = 0, MaxCount = 1, Enabled = True\<rparr> True
     (two_folders (\<lambda>k. False))) = two_folders (\<lambda>k. False) \<and>
   stats (Execute (plain_runtime 100) \<lparr>MaxAgeDays = 0, MaxCount = 1, Enabled = True\<rparr> True
     (two_folders (\<lambda>k. False))) =
   stats (Execute (plain_runtime 100) \<lparr>MaxAgeDays = 0, MaxCount = 1, Enabled = True\<rparr> False
     (two_folders (\<lambda>k. False)))"
proof -
  let ?rt = "plain_runtime 100"
  let ?rules = "\<lparr>MaxAgeDays = 0, MaxCount = 1, Enabled = True\<rparr>"
  let ?s = "two_folders (\<lambda>k. False)"
  have live: "err (Execute ?rt ?rules False ?s) = None"
    "calls (Execute ?rt ?rules False ?s) = [''a/2'', ''a/1'', ''b/1'']"
    by (simp_all add: exec_defs run_defs two_folders_def)
  show ?thesis
    using dry_run_never_deletes[of ?rt ?rules ?s] live by simp
qed

text \<open>
  Claim C8. When the policy's \<open>Enabled\<close> flag is false the run does not list the bucket,
  classifies nothing and issues no delete call, whatever the store and the dry-run flag:
  it returns the zeroed statistics with an empty per-database map, and no error.
\<close>

theorem disabled_policy:
  assumes "\<not> Enabled rules"
  shows "Execute rt rules dryRun s =
           \<lparr>stats = Some empty_stats, err = None, calls = [], store = s\<rparr> \<and>
         DeletedFiles empty_stats = 0 \<and> TotalFiles empty_stats = 0 \<and>
         RetainedFiles empty_stats = 0 \<and> DeletedSize empty_stats = 0 \<and>
         RetainedSize empty_stats = 0 \<and> OldestRetained empty_stats = 0 \<and>
         NewestRetained empty_stats = 0 \<and> PerDatabase empty_stats = Map.empty"
  using assms by (simp add: Execute_def empty_stats_def)

theorem disabled_policy_witness:
  "\<not> Enabled \<lparr>MaxAgeDays = 1, MaxCount = 1, Enabled = False\<rparr> \<and>
   Execute (plain_runtime 100) \<lparr>MaxAgeDays = 1, MaxCount = 1, Enabled = False\<rparr> False
     (two_folders (\<lambda>k. True)\<lparr>list_fails := True\<rparr>) =
     \<lparr>stats = Some empty_stats, err = None, calls = [],
      store = two_folders (\<lambda>k. True)\<lparr>list_fails := True\<rparr>\<rparr>"
  using disabled_policy[of "\<lparr>MaxAgeDays = 1, MaxCount = 1, Enabled = False\<rparr>" "plain_runtime 100" False
      "two_folders (\<lambda>k. True)\<lparr>list_fails := True\<rparr>"]
  by simp

section \<open>Statistics of one database folder\<close>

lemma newest_first_hd:
  assumes "newest_first xs" "xs \<noteq> []"
  shows "CreatedAt (hd xs) = Max (CreatedAt ` set xs)"
proof -
  obtain x ys where xs: "xs = x # ys"
    using assms(2) by (cases xs) simp_all
  have "\<forall>y \<in> set xs. CreatedAt y \<le> CreatedAt x"
    using assms(1) by (auto simp: xs newest_first_def)
  then show ?thesis
    by (simp add: xs) (intro Max_eqI[symmetric]; auto)
qed

lemma newest_first_last:
  assumes "newest_first xs" "xs \<noteq> []"
  shows "CreatedAt (last xs) = Min (CreatedAt ` set xs)"
proof -
  obtain ys z where xs: "xs = ys @ [z]"
    using assms(2) by (cases xs rule: rev_cases) simp_all
  have "\<forall>y \<in> set xs. CreatedAt z \<le> CreatedAt y"
    using assms(1) by (auto simp: xs newest_first_def sorted_wrt_append)
  then show ?thesis
    unfolding xs by (simp del: set_append) (intro Min_eqI[symmetric]; auto)
qed

lemma fold_sizes: "fold (\<lambda>file acc. acc + Size file) xs a = a + sum_list (map Size xs)"
  by (induction xs arbitrary: a) (simp_all add: add.assoc)

lemma sum_sizes_sum_list: "sum_sizes xs = sum_list (map Size xs)"
  by (simp add: sum_sizes_def fold_sizes)

lemma sum_sizes_mset: "mset xs = mset ys \<Longrightarrow> sum_sizes xs = sum_sizes ys"
  by (metis sum_sizes_sum_list mset_map sum_mset_sum_list)

lemma process_db_canonical:
  assumes rt: "go_runtime rt" and p: "process_db rt rules g files0 = (del, ret, d)"
  shows "d = \<lparr>TotalFiles = int (length files0),
               DeletedFiles = int (size (mset del)),
               RetainedFiles = int (size (mset ret)),
               DeletedSize = sum_mset (image_mset Size (mset del)),
               RetainedSize = sum_mset (image_mset Size (mset ret)),
               OldestRetained = (if mset ret \<noteq> {#} then Min (CreatedAt ` set_mset (mset ret)) else 0),
               NewestRetained = (if mset ret \<noteq> {#} then Max (CreatedAt ` set_mset (mset ret)) else 0)\<rparr>"
proof -
  have nf: "newest_first ret"
    by (rule process_db_slices(3)[OF rt p])
  have "sum_sizes del = sum_mset (image_mset Size (mset del))"
       "sum_sizes ret = sum_mset (image_mset Size (mset ret))"
    by (metis sum_sizes_sum_list mset_map sum_mset_sum_list)+
  then show ?thesis
    by (subst process_db_stats[OF rt p])
       (simp add: newest_first_hd[OF nf] newest_first_last[OF nf])
qed

lemma classify_runtime:
  assumes "time_AddDate rt1 = time_AddDate rt2"
  shows "classify rt1 rules now files = classify rt2 rules now files"
proof -
  have "cutoffTime rt1 = cutoffTime rt2"
    using assms by (simp add: fun_eq_iff cutoffTime_def)
  then show ?thesis
    by (simp add: classify_def Let_def)
qed

lemma process_db_runtime:
  assumes "go_runtime rt1" "go_runtime rt2"
    and "sort_Slice rt1 = sort_Slice rt2" "time_Now rt1 = time_Now rt2"
    and "time_AddDate rt1 = time_AddDate rt2"
  shows "mset (fst (process_db rt1 rules g fs)) = mset (fst (process_db rt2 rules g fs))"
    and "mset (fst (snd (process_db rt1 rules g fs))) = mset (fst (snd (process_db rt2 rules g fs)))"
    and "snd (snd (process_db rt1 rules g fs)) = snd (snd (process_db rt2 rules g fs))"
proof -
  obtain del1 ret1 d1 where p1: "process_db rt1 rules g fs = (del1, ret1, d1)"
    by (cases "process_db rt1 rules g fs")
  obtain del2 ret2 d2 where p2: "process_db rt2 rules g fs = (del2, ret2, d2)"
    by (cases "process_db rt2 rules g fs")
  have del: "mset del1 = mset del2"
    using process_db_slices(1)[OF assms(1) p1] process_db_slices(1)[OF assms(2) p2] assms(3,4)
    by (simp add: classify_runtime[OF assms(5)])
  have ret: "mset ret1 = mset ret2"
    using process_db_slices(2)[OF assms(1) p1] process_db_slices(2)[OF assms(2) p2] assms(3,4)
    by (simp add: classify_runtime[OF assms(5)])
  have "d1 = d2"
    by (subst process_db_canonical[OF assms(1) p1], subst process_db_canonical[OF assms(2) p2])
       (simp only: del ret)
  then show "mset (fst (process_db rt1 rules g fs)) = mset (fst (process_db rt2 rules g fs))"
    and "mset (fst (snd (process_db rt1 rules g fs))) = mset (fst (snd (process_db rt2 rules g fs)))"
    and "snd (snd (process_db rt1 rules g fs)) = snd (snd (process_db rt2 rules g fs))"
    using del ret by (simp_all add: p1 p2)
qed

lemma db_step_stats:
  assumes rt: "go_runtime rt"
  shows "db_step rt rules g st =
     st\<lparr>PerDatabase := (PerDatabase st)(fst g \<mapsto> db_stats rt rules g),
        TotalFiles := TotalFiles st + TotalFiles (db_stats rt rules g),
        DeletedFiles := DeletedFiles st + DeletedFiles (db_stats rt rules g),
        RetainedFiles := RetainedFiles st + RetainedFiles (db_stats rt rules g),
        DeletedSize := DeletedSize st + DeletedSize (db_stats rt rules g),
        RetainedSize := RetainedSize st + RetainedSize (db_stats rt rules g),
        OldestRetained :=
          (if RetainedFiles (db_stats rt rules g) > 0 \<and>
              (OldestRetained st = 0 \<or> OldestRetained (db_stats rt rules g) < OldestRetained st)
           then OldestRetained (db_stats rt rules g) else OldestRetained st),
        NewestRetained :=
          (if RetainedFiles (db_stats rt rules g) > 0 \<and>
              (NewestRetained st = 0 \<or> NewestRetained st < NewestRetained (db_stats rt rules g))
           then NewestRetained (db_stats rt rules g) else NewestRetained st)\<rparr>"
proof -
  obtain del ret d where p: "process_db rt rules (fst g) (snd g) = (del, ret, d)"
    by (cases "process_db rt rules (fst g) (snd g)")
  have d: "db_stats rt rules g = d"
    by (simp add: db_stats_def p)
  have "RetainedFiles d = int (length ret)"
    "OldestRetained d = (if ret \<noteq> [] then CreatedAt (last ret) else 0)"
    "NewestRetained d = (if ret \<noteq> [] then CreatedAt (hd ret) else 0)"
    by (subst process_db_stats[OF rt p], simp)+
  then show ?thesis
    by (simp add: db_step_def p d update_overall_def)
qed

section \<open>Statistics of a run\<close>

lemma fold_db_step_sums:
  assumes rt: "go_runtime rt"
  shows "TotalFiles (fold (db_step rt rules) gs st) =
           TotalFiles st + sum_list (map (\<lambda>g. TotalFiles (db_stats rt rules g)) gs)"
    and "DeletedFiles (fold (db_step rt rules) gs st) =
           DeletedFiles st + sum_list (map (\<lambda>g. DeletedFiles (db_stats rt rules g)) gs)"
    and "RetainedFiles (fold (db_step rt rules) gs st) =
           RetainedFiles st + sum_list (map (\<lambda>g. RetainedFiles (db_stats rt rules g)) gs)"
    and "DeletedSize (fold (db_step rt rules) gs st) =
           DeletedSize st + sum_list (map (\<lambda>g. DeletedSize (db_stats rt rules g)) gs)"
    and "RetainedSize (fold (db_step rt rules) gs st) =
           RetainedSize st + sum_list (map (\<lambda>g. RetainedSize (db_stats rt rules g)) gs)"
  by (induction gs arbitrary: st; simp add: db_step_stats[OF rt] add.assoc)+

lemma fold_db_step_map:
  assumes rt: "go_runtime rt"
  shows "distinct (map fst gs) \<Longrightarrow>
         PerDatabase (fold (db_step rt rules) gs st) =
           PerDatabase st ++ map_of (map (\<lambda>g. (fst g, db_stats rt rules g)) gs)"
proof (induction gs arbitrary: st)
  case Nil
  show ?case by simp
next
  case (Cons g gs)
  have "map_of (map (\<lambda>g. (fst g, db_stats rt rules g)) gs) (fst g) = None"
    using Cons.prems by (auto simp: map_of_eq_None_iff image_image)
  then show ?case
    using Cons by (auto simp: db_step_stats[OF rt] map_add_def fun_eq_iff split: option.splits)
qed

lemma DeleteStats_eqI:
  fixes a b :: DeleteStats
  assumes "TotalFiles a = TotalFiles b" "DeletedFiles a = DeletedFiles b"
    "RetainedFiles a = RetainedFiles b" "DeletedSize a = DeletedSize b"
    "RetainedSize a = RetainedSize b" "OldestRetained a = OldestRetained b"
    "NewestRetained a = NewestRetained b" "PerDatabase a = PerDatabase b"
  shows "a = b"
  using assms by (cases a, cases b) simp

lemma sum_list_perm:
  fixes f :: "'a \<Rightarrow> 'b::comm_monoid_add"
  shows "mset xs = mset ys \<Longrightarrow> sum_list (map f xs) = sum_list (map f ys)"
  by (metis mset_map sum_mset_sum_list)

lemma map_of_perm:
  assumes "mset xs = mset ys" "distinct (map fst xs)"
  shows "map_of (map (\<lambda>g. (fst g, f g)) xs) = map_of (map (\<lambda>g. (fst g, f g)) ys)"
proof -
  have "distinct (map fst ys)"
    using assms by (metis mset_eq_imp_distinct_iff mset_map)
  moreover have "set (map (\<lambda>g. (fst g, f g)) xs) = set (map (\<lambda>g. (fst g, f g)) ys)"
    using assms(1) by (metis mset_eq_setD mset_map)
  ultimately show ?thesis
    using assms(2) by (intro map_of_inject_set[THEN iffD2]) (simp_all add: comp_def)
qed

lemma fold_db_step_perm:
  assumes "go_runtime rt1" "go_runtime rt2"
    and "sort_Slice rt1 = sort_Slice rt2" "time_Now rt1 = time_Now rt2"
    and "time_AddDate rt1 = time_AddDate rt2"
    and "mset gs1 = mset gs2" "distinct (map fst gs1)"
  shows "counts_and_sizes (fold (db_step rt1 rules) gs1 st) =
         counts_and_sizes (fold (db_step rt2 rules) gs2 st)"
proof -
  have ds: "db_stats rt1 rules = db_stats rt2 rules"
    by (simp add: fun_eq_iff db_stats_def process_db_runtime(3)[OF assms(1-5)])
  have d2: "distinct (map fst gs2)"
    using assms(6,7) by (metis mset_eq_imp_distinct_iff mset_map)
  show ?thesis
    by (rule DeleteStats_eqI)
       (simp_all add: counts_and_sizes_def fold_db_step_sums[OF assms(1)] fold_db_step_sums[OF assms(2)]
          fold_db_step_map[OF assms(1,7)] fold_db_step_map[OF assms(2) d2] ds
          sum_list_perm[OF assms(6)] map_of_perm[OF assms(6,7)])
qed

lemma update_keys_distinct: "distinct (map fst al) \<Longrightarrow> distinct (map fst (AList.update k v al))"
  by (simp add: distinct_update)

lemma group_files_distinct: "distinct (map fst (group_files dir files))"
proof -
  have "distinct (map fst acc) \<Longrightarrow> distinct (map fst (fold (add_file dir) files acc))" for acc
    by (induction files arbitrary: acc) (simp_all add: add_file_def Let_def distinct_update)
  then show ?thesis
    by (simp add: group_files_def)
qed

lemma db_folders_distinct: "go_runtime rt \<Longrightarrow> distinct (map fst (db_folders rt s))"
  by (metis db_folders_def go_runtime_range_dbs group_files_distinct mset_eq_imp_distinct_iff mset_map)

section \<open>Oldest and newest retained times\<close>

lemmas zero_defs = zero_stamp_def epoch_a_def later_b_def reversed_runtime_def

text \<open>
  The statistics of one database folder are right: the oldest and newest retained times
  are the least and greatest \<open>CreatedAt\<close> of the retained files, and the zero instant
  when no file is retained.
\<close>

lemma per_database_oldest_newest:
  assumes "go_runtime rt" and "process_db rt rules dbFolder files0 = (del, ret, dbStats)"
  shows "OldestRetained dbStats = (if ret = [] then 0 else Min (CreatedAt ` set ret))"
    and "NewestRetained dbStats = (if ret = [] then 0 else Max (CreatedAt ` set ret))"
  by (subst process_db_canonical[OF assms], simp)+

lemma empty_listing:
  "\<not> list_fails s \<Longrightarrow> objects s = [] \<Longrightarrow>
   Execute rt rules dryRun s = \<lparr>stats = Some empty_stats, err = None, calls = [], store = s\<rparr>"
  by (simp add: Execute_def s3_List_def)

text \<open>
  Claim C9, as stated, fails at a listing where a retained backup carries the zero
  instant. Both backups are retained and the least \<open>CreatedAt\<close> among them is the zero
  instant, but the overall \<open>OldestRetained\<close> is 5: the overall statistics take the zero
  instant for "not set" (lines 395 and 398) and overwrite it with the time of the next
  folder.
\<close>

theorem overall_oldest_misses_zero_instant:
  "fst (snd (process_db (plain_runtime 100) \<lparr>MaxAgeDays = 0, MaxCount = 5, Enabled = True\<rparr> ''a''
     [epoch_a])) = [epoch_a] \<and>
   fst (snd (process_db (plain_runtime 100) \<lparr>MaxAgeDays = 0, MaxCount = 5, Enabled = True\<rparr> ''b''
     [later_b])) = [later_b] \<and>
   db_folders (plain_runtime 100) zero_stamp = [(''a'', [epoch_a]), (''b'', [later_b])] \<and>
   Min (CreatedAt ` {epoch_a, later_b}) = 0 \<and>
   OldestRetained (the (stats (Execute (plain_runtime 100)
     \<lparr>MaxAgeDays = 0, MaxCount = 5, Enabled = True\<rparr> True zero_stamp))) = 5 \<and>
   RetainedFiles (the (stats (Execute (plain_runtime 100)
     \<lparr>MaxAgeDays = 0, MaxCount = 5, Enabled = True\<rparr> True zero_stamp))) = 2"
  by (simp add: run_defs exec_defs zero_defs db_folders_def)

text \<open>
  Claim C10, as stated, fails at the same listing. The database folders report 0 and 5 as
  their oldest retained times, each with one retained file, and the overall
  \<open>OldestRetained\<close> is 5, not their minimum, when the loop visits folder \<open>a\<close> first; it is 0
  when the loop visits folder \<open>b\<close> first. The counts and sizes are the sums over the
  folders.
\<close>

theorem overall_oldest_not_min_of_folders:
  "stats (Execute (plain_runtime 100) \<lparr>MaxAgeDays = 0, MaxCount = 5, Enabled = True\<rparr> True zero_stamp) =
     Some \<lparr>TotalFiles = 2, DeletedFiles = 0, RetainedFiles = 2, DeletedSize = 0, RetainedSize = 3,
       OldestRetained = 5, NewestRetained = 5,
       PerDatabase = [''a'' \<mapsto>
         \<lparr>TotalFiles = 1, DeletedFiles = 0, RetainedFiles = 1, DeletedSize = 0, RetainedSize = 1,
          OldestRetained = 0, NewestRetained = 0\<rparr>,
         ''b'' \<mapsto>
         \<lparr>TotalFiles = 1, DeletedFiles = 0, RetainedFiles = 1, DeletedSize = 0, RetainedSize = 2,
          OldestRetained = 5, NewestRetained = 5\<rparr>]\<rparr> \<and>
   OldestRetained (the (stats (Execute (reversed_runtime 100)
     \<lparr>MaxAgeDays = 0, MaxCount = 5, Enabled = True\<rparr> True zero_stamp))) = 0"
  by (simp add: run_defs exec_defs zero_defs)


text \<open>
  Away from the zero instant the overall times are right: when no database folder with
  retained files reports the zero instant, the overall oldest (newest) retained time is
  the least (greatest) of the times the folders with retained files report.
\<close>

lemma fold_oldest:
  "0 \<notin> set xs \<Longrightarrow>
   fold (\<lambda>x cur. if cur = 0 \<or> x < cur then x else cur) xs (c::int) =
     (if c = 0 then (if xs = [] then 0 else Min (set xs)) else Min (set (c # xs)))"
proof (induction xs arbitrary: c)
  case Nil
  show ?case by simp
next
  case (Cons x xs)
  then have x: "x \<noteq> 0" and xs: "0 \<notin> set xs"
    by auto
  show ?case
  proof (cases "xs = []")
    case True
    then show ?thesis using x by (auto simp: min_def)
  next
    case False
    then show ?thesis
      using x Cons.IH[OF xs] by (auto simp: min_def Min_insert2 insert_commute)
  qed
qed

lemma fold_newest:
  "0 \<notin> set xs \<Longrightarrow>
   fold (\<lambda>x cur. if cur = 0 \<or> cur < x then x else cur) xs (c::int) =
     (if c = 0 then (if xs = [] then 0 else Max (set xs)) else Max (set (c # xs)))"
proof (induction xs arbitrary: c)
  case Nil
  show ?case by simp
next
  case (Cons x xs)
  then have x: "x \<noteq> 0" and xs: "0 \<notin> set xs"
    by auto
  show ?case
  proof (cases "xs = []")
    case True
    then show ?thesis using x by (auto simp: max_def)
  next
    case False
    then show ?thesis
      using x Cons.IH[OF xs] by (auto simp: max_def insert_commute)
  qed
qed

lemma fold_db_step_oldest:
  assumes rt: "go_runtime rt"
  shows "OldestRetained (fold (db_step rt rules) gs st) =
     fold (\<lambda>x cur. if cur = 0 \<or> x < cur then x else cur)
       (map (\<lambda>g. OldestRetained (db_stats rt rules g))
          (filter (\<lambda>g. RetainedFiles (db_stats rt rules g) > 0) gs)) (OldestRetained st)"
  by (induction gs arbitrary: st) (simp_all add: db_step_stats[OF rt])

lemma fold_db_step_newest:
  assumes rt: "go_runtime rt"
  shows "NewestRetained (fold (db_step rt rules) gs st) =
     fold (\<lambda>x cur. if cur = 0 \<or> cur < x then x else cur)
       (map (\<lambda>g. NewestRetained (db_stats rt rules g))
          (filter (\<lambda>g. RetainedFiles (db_stats rt rules g) > 0) gs)) (NewestRetained st)"
  by (induction gs arbitrary: st) (simp_all add: db_step_stats[OF rt])

lemma overall_oldest_newest:
  assumes rt: "go_runtime rt"
    and nz: "\<forall>g \<in> set gs. RetainedFiles (db_stats rt rules g) > 0 \<longrightarrow>
               OldestRetained (db_stats rt rules g) \<noteq> 0 \<and> NewestRetained (db_stats rt rules g) \<noteq> 0"
  shows "OldestRetained (fold (db_step rt rules) gs empty_stats) =
           (if \<forall>g \<in> set gs. RetainedFiles (db_stats rt rules g) \<le> 0 then 0
            else Min {OldestRetained (db_stats rt rules g) | g.
                        g \<in> set gs \<and> RetainedFiles (db_stats rt rules g) > 0})"
    and "NewestRetained (fold (db_step rt rules) gs empty_stats) =
           (if \<forall>g \<in> set gs. RetainedFiles (db_stats rt rules g) \<le> 0 then 0
            else Max {NewestRetained (db_stats rt rules g) | g.
                        g \<in> set gs \<and> RetainedFiles (db_stats rt rules g) > 0})"
proof -
  let ?kept = "filter (\<lambda>g. RetainedFiles (db_stats rt rules g) > 0) gs"
  let ?os = "map (\<lambda>g. OldestRetained (db_stats rt rules g)) ?kept"
  let ?ns = "map (\<lambda>g. NewestRetained (db_stats rt rules g)) ?kept"
  have z: "0 \<notin> set ?os" "0 \<notin> set ?ns"
    using nz by auto
  have e: "?kept = [] \<longleftrightarrow> (\<forall>g \<in> set gs. RetainedFiles (db_stats rt rules g) \<le> 0)"
    by (auto simp: filter_empty_conv not_less)
  have so: "set ?os = {OldestRetained (db_stats rt rules g) | g.
                        g \<in> set gs \<and> RetainedFiles (db_stats rt rules g) > 0}"
    and sn: "set ?ns = {NewestRetained (db_stats rt rules g) | g.
                        g \<in> set gs \<and> RetainedFiles (db_stats rt rules g) > 0}"
    by auto
  show "OldestRetained (fold (db_step rt rules) gs empty_stats) =
           (if \<forall>g \<in> set gs. RetainedFiles (db_stats rt rules g) \<le> 0 then 0
            else Min {OldestRetained (db_stats rt rules g) | g.
                        g \<in> set gs \<and> RetainedFiles (db_stats rt rules g) > 0})"
    unfolding fold_db_step_oldest[OF rt] fold_oldest[OF z(1)] so[symmetric]
    using e by (simp add: empty_stats_def)
  show "NewestRetained (fold (db_step rt rules) gs empty_stats) =
           (if \<forall>g \<in> set gs. RetainedFiles (db_stats rt rules g) \<le> 0 then 0
            else Max {NewestRetained (db_stats rt rules g) | g.
                        g \<in> set gs \<and> RetainedFiles (db_stats rt rules g) > 0})"
    unfolding fold_db_step_newest[OF rt] fold_newest[OF z(2)] sn[symmetric]
    using e by (simp add: empty_stats_def)
qed


text \<open>
  The overall counts and sizes are the sums of the per-database statistics, in a dry run
  and in a live run, also one that a failing delete call has cut short.
\<close>

lemma folders_reached_take: "\<exists>n. folders_reached rt rules fails gs = take n gs"
proof (induction gs)
  case Nil
  show ?case by simp
next
  case (Cons g gs)
  then obtain n where n: "folders_reached rt rules fails gs = take n gs"
    by blast
  show ?case
  proof (cases "list_ex fails (delete_keys rt rules g)")
    case True
    then have "folders_reached rt rules fails (g # gs) = take 1 (g # gs)"
      by simp
    then show ?thesis by blast
  next
    case False
    then have "folders_reached rt rules fails (g # gs) = take (Suc n) (g # gs)"
      by (simp add: n)
    then show ?thesis by blast
  qed
qed

lemma sum_over_folders:
  fixes F :: "DatabaseStats \<Rightarrow> 'b::comm_monoid_add"
  assumes "distinct (map fst gs)"
  shows "(\<Sum>k \<in> dom (map_of (map (\<lambda>g. (fst g, D g)) gs)).
            F (the (map_of (map (\<lambda>g. (fst g, D g)) gs) k))) =
         sum_list (map (\<lambda>g. F (D g)) gs)"
proof -
  let ?m = "map_of (map (\<lambda>g. (fst g, D g)) gs)"
  have dom: "dom ?m = set (map fst gs)"
    by (simp add: dom_map_of_conv_image_fst image_image)
  have look: "?m (fst g) = Some (D g)" if "g \<in> set gs" for g
    using that assms by (intro map_of_is_SomeI) (auto simp: comp_def)
  have "(\<Sum>k \<in> set (map fst gs). F (the (?m k))) = sum_list (map (\<lambda>k. F (the (?m k))) (map fst gs))"
    using assms by (rule sum.distinct_set_conv_list)
  also have "\<dots> = sum_list (map (\<lambda>g. F (D g)) gs)"
    by (simp add: comp_def look cong: map_cong)
  finally show ?thesis
    by (simp only: dom)
qed

lemma sums_of_fold:
  assumes rt: "go_runtime rt" and d: "distinct (map fst gs)"
    and st: "st = fold (db_step rt rules) gs empty_stats"
  shows "TotalFiles st = (\<Sum>k \<in> dom (PerDatabase st). TotalFiles (the (PerDatabase st k)))"
    and "DeletedFiles st = (\<Sum>k \<in> dom (PerDatabase st). DeletedFiles (the (PerDatabase st k)))"
    and "RetainedFiles st = (\<Sum>k \<in> dom (PerDatabase st). RetainedFiles (the (PerDatabase st k)))"
    and "DeletedSize st = (\<Sum>k \<in> dom (PerDatabase st). DeletedSize (the (PerDatabase st k)))"
    and "RetainedSize st = (\<Sum>k \<in> dom (PerDatabase st). RetainedSize (the (PerDatabase st k)))"
proof -
  have m: "PerDatabase st = map_of (map (\<lambda>g. (fst g, db_stats rt rules g)) gs)"
    by (simp add: st fold_db_step_map[OF rt d] empty_stats_def)
  show "TotalFiles st = (\<Sum>k \<in> dom (PerDatabase st). TotalFiles (the (PerDatabase st k)))"
    unfolding m sum_over_folders[OF d] by (simp add: st fold_db_step_sums[OF rt] empty_stats_def)
  show "DeletedFiles st = (\<Sum>k \<in> dom (PerDatabase st). DeletedFiles (the (PerDatabase st k)))"
    unfolding m sum_over_folders[OF d] by (simp add: st fold_db_step_sums[OF rt] empty_stats_def)
  show "RetainedFiles st = (\<Sum>k \<in> dom (PerDatabase st). RetainedFiles (the (PerDatabase st k)))"
    unfolding m sum_over_folders[OF d] by (simp add: st fold_db_step_sums[OF rt] empty_stats_def)
  show "DeletedSize st = (\<Sum>k \<in> dom (PerDatabase st). DeletedSize (the (PerDatabase st k)))"
    unfolding m sum_over_folders[OF d] by (simp add: st fold_db_step_sums[OF rt] empty_stats_def)
  show "RetainedSize st = (\<Sum>k \<in> dom (PerDatabase st). RetainedSize (the (PerDatabase st k)))"
    unfolding m sum_over_folders[OF d] by (simp add: st fold_db_step_sums[OF rt] empty_stats_def)
qed

lemma Execute_stats_fold:
  assumes rt: "go_runtime rt" and st: "stats (Execute rt rules dryRun s) = Some st"
  shows "\<exists>gs. distinct (map fst gs) \<and> st = fold (db_step rt rules) gs empty_stats"
proof (cases "Enabled rules")
  case False
  then have "st = fold (db_step rt rules) [] empty_stats"
    using st by (simp add: Execute_def)
  then show ?thesis
    by (intro exI[of _ "[]"]) simp
next
  case True
  then have nl: "\<not> list_fails s"
    using st by (auto simp: Execute_def s3_List_def)
  note ex = Execute_enabled[OF rt True nl]
  note dd = db_folders_distinct[OF rt, of s]
  show ?thesis
  proof (cases dryRun)
    case True
    then have "st = fold (db_step rt rules) (db_folders rt s) empty_stats"
      using st by (simp add: ex process_dbs_dry)
    then show ?thesis
      using dd by blast
  next
    case False
    obtain n where n: "folders_reached rt rules (delete_fails s) (db_folders rt s) = take n (db_folders rt s)"
      using folders_reached_take by blast
    have "st = fold (db_step rt rules) (take n (db_folders rt s)) empty_stats"
      using st False by (simp add: ex process_dbs_live n)
    moreover have "distinct (map fst (take n (db_folders rt s)))"
      using distinct_take[OF dd, of n] by (simp add: take_map)
    ultimately show ?thesis
      by blast
  qed
qed

lemma overall_counts_are_sums:
  assumes "go_runtime rt" and "stats (Execute rt rules dryRun s) = Some st"
  shows "TotalFiles st = (\<Sum>k \<in> dom (PerDatabase st). TotalFiles (the (PerDatabase st k))) \<and>
         DeletedFiles st = (\<Sum>k \<in> dom (PerDatabase st). DeletedFiles (the (PerDatabase st k))) \<and>
         RetainedFiles st = (\<Sum>k \<in> dom (PerDatabase st). RetainedFiles (the (PerDatabase st k))) \<and>
         DeletedSize st = (\<Sum>k \<in> dom (PerDatabase st). DeletedSize (the (PerDatabase st k))) \<and>
         RetainedSize st = (\<Sum>k \<in> dom (PerDatabase st). RetainedSize (the (PerDatabase st k)))"
proof -
  obtain gs where gs: "distinct (map fst gs)" "st = fold (db_step rt rules) gs empty_stats"
    using Execute_stats_fold[OF assms] by blast
  show ?thesis
    using sums_of_fold[OF assms(1) gs] by blast
qed

section \<open>The database folders of a listing\<close>

text \<open>
  Every object of the listing is in exactly one database folder, the folder of its key,
  and a listing with unique keys gives folders with unique keys: the theorems about one
  folder apply to every folder of a run.
\<close>

lemma update_append_mset:
  "mset (concat (map snd (AList.update k ((case map_of al k of None \<Rightarrow> [] | Some fs \<Rightarrow> fs) @ [f]) al))) =
   add_mset f (mset (concat (map snd al)))"
  by (induction al) auto

lemma group_files_mset: "mset (concat (map snd (group_files dir files))) = mset files"
proof -
  have "mset (concat (map snd (fold (add_file dir) files acc))) =
        mset (concat (map snd acc)) + mset files" for acc
    by (induction files arbitrary: acc) (simp_all add: add_file_def Let_def update_append_mset)
  then show ?thesis
    by (simp add: group_files_def)
qed

lemma set_update_cases:
  "p \<in> set (AList.update k v al) \<Longrightarrow> p = (k, v) \<or> p \<in> set al"
  by (induction al) (auto split: if_splits)

lemma group_files_dir:
  assumes "(g, fs) \<in> set (group_files dir files)" "f \<in> set fs"
  shows "dir (Key f) = g"
proof -
  have "\<forall>(g, fs) \<in> set (fold (add_file dir) files acc). \<forall>f \<in> set fs. dir (Key f) = g"
    if "\<forall>(g, fs) \<in> set acc. \<forall>f \<in> set fs. dir (Key f) = g" for acc
    using that
  proof (induction files arbitrary: acc)
    case Nil
    then show ?case by simp
  next
    case (Cons x xs)
    have "\<forall>(g, fs) \<in> set (add_file dir x acc). \<forall>f \<in> set fs. dir (Key f) = g"
    proof (clarify)
      fix g fs f
      assume in_upd: "(g, fs) \<in> set (add_file dir x acc)" and f: "f \<in> set fs"
      let ?k = "dir (Key x)"
      let ?v = "(case map_of acc ?k of None \<Rightarrow> [] | Some fs \<Rightarrow> fs) @ [x]"
      from in_upd have "(g, fs) = (?k, ?v) \<or> (g, fs) \<in> set acc"
        by (auto simp: add_file_def Let_def dest: set_update_cases)
      then show "dir (Key f) = g"
      proof
        assume new: "(g, fs) = (?k, ?v)"
        show ?thesis
        proof (cases "map_of acc ?k")
          case None
          then show ?thesis using new f by simp
        next
          case (Some old)
          then have "(?k, old) \<in> set acc"
            by (rule map_of_SomeD)
          then show ?thesis
            using new f Some Cons.prems by auto
        qed
      next
        assume "(g, fs) \<in> set acc"
        then show ?thesis
          using f Cons.prems by auto
      qed
    qed
    from Cons.IH[OF this] show ?case
      by simp
  qed
  from this[of "[]"] have "\<forall>(g, fs) \<in> set (group_files dir files). \<forall>f \<in> set fs. dir (Key f) = g"
    by (simp add: group_files_def)
  then show ?thesis
    using assms by blast
qed

lemma distinct_concat_part: "distinct (concat xss) \<Longrightarrow> ys \<in> set xss \<Longrightarrow> distinct ys"
  by (induction xss) auto

lemma group_files_keys:
  assumes "distinct (map Key files)" "(g, fs) \<in> set (group_files dir files)"
  shows "distinct (map Key fs)"
proof -
  have "mset (map Key (concat (map snd (group_files dir files)))) = mset (map Key files)"
    by (simp add: group_files_mset)
  then have "distinct (map Key (concat (map snd (group_files dir files))))"
    using assms(1) by (metis mset_eq_imp_distinct_iff)
  then have "distinct (concat (map (map Key \<circ> snd) (group_files dir files)))"
    by (simp add: map_concat)
  moreover have "map Key fs \<in> set (map (map Key \<circ> snd) (group_files dir files))"
    using assms(2) by force
  ultimately show ?thesis
    by (rule distinct_concat_part)
qed

lemma folders_of_listing:
  assumes rt: "go_runtime rt"
  shows "mset (concat (map snd (db_folders rt s))) = mset (objects s)"
    and "(g, fs) \<in> set (db_folders rt s) \<Longrightarrow> f \<in> set fs \<Longrightarrow> path_Dir rt (Key f) = g"
    and "distinct (map Key (objects s)) \<Longrightarrow> (g, fs) \<in> set (db_folders rt s) \<Longrightarrow> distinct (map Key fs)"
proof -
  let ?G = "group_files (path_Dir rt) (objects s)"
  have perm: "mset (db_folders rt s) = mset ?G"
    by (simp add: db_folders_def go_runtime_range_dbs[OF rt])
  then have same: "set (db_folders rt s) = set ?G"
    by (rule mset_eq_setD)
  have "mset (concat (map snd (db_folders rt s))) = mset (concat (map snd ?G))"
    unfolding mset_concat by (simp add: sum_list_perm[OF perm] comp_def)
  then show "mset (concat (map snd (db_folders rt s))) = mset (objects s)"
    by (simp add: group_files_mset)
  show "(g, fs) \<in> set (db_folders rt s) \<Longrightarrow> f \<in> set fs \<Longrightarrow> path_Dir rt (Key f) = g"
    unfolding same by (rule group_files_dir)
  show "distinct (map Key (objects s)) \<Longrightarrow> (g, fs) \<in> set (db_folders rt s) \<Longrightarrow> distinct (map Key fs)"
    unfolding same by (rule group_files_keys)
qed

section \<open>What the evaluation depends on\<close>

text \<open>
  Claim C7, as stated, fails. The evaluation reads the clock itself (line 312), so the same
  listing and policy evaluated when the clock reads day 100 and when it reads day 200 give
  different files to delete and different statistics. And no rule breaks a tie in
  \<open>CreatedAt\<close>: with \<open>MaxCount = 1\<close> and two backups of equal time, the one retained is the
  one the listing had first, whatever the keys.
\<close>

theorem evaluation_reads_clock_and_listing_order:
  "fst (process_db (plain_runtime (100 * day)) \<lparr>MaxAgeDays = 30, MaxCount = 0, Enabled = True\<rparr> ''db''
     [demo_a, demo_b, demo_c]) = [demo_a] \<and>
   fst (process_db (plain_runtime (200 * day)) \<lparr>MaxAgeDays = 30, MaxCount = 0, Enabled = True\<rparr> ''db''
     [demo_a, demo_b, demo_c]) = [demo_c, demo_b, demo_a] \<and>
   stats (Execute (plain_runtime (100 * day)) \<lparr>MaxAgeDays = 30, MaxCount = 0, Enabled = True\<rparr> True
     \<lparr>objects = [demo_a, demo_b, demo_c], list_fails = False, delete_fails = (\<lambda>k. False)\<rparr>) \<noteq>
   stats (Execute (plain_runtime (200 * day)) \<lparr>MaxAgeDays = 30, MaxCount = 0, Enabled = True\<rparr> True
     \<lparr>objects = [demo_a, demo_b, demo_c], list_fails = False, delete_fails = (\<lambda>k. False)\<rparr>) \<and>
   fst (snd (process_db (plain_runtime 100) \<lparr>MaxAgeDays = 0, MaxCount = 1, Enabled = True\<rparr> ''db''
     [tie_x, tie_y])) = [tie_x] \<and>
   fst (snd (process_db (plain_runtime 100) \<lparr>MaxAgeDays = 0, MaxCount = 1, Enabled = True\<rparr> ''db''
     [tie_y, tie_x])) = [tie_y]"
proof -
  let ?rules = "\<lparr>MaxAgeDays = 30, MaxCount = 0, Enabled = True\<rparr>"
  let ?s = "\<lparr>objects = [demo_a, demo_b, demo_c], list_fails = False, delete_fails = (\<lambda>k. False)\<rparr>"
  have d1: "DeletedFiles (the (stats (Execute (plain_runtime (100 * day)) ?rules True ?s))) = 1"
    by (simp add: run_defs demo_defs exec_defs)
  have d2: "DeletedFiles (the (stats (Execute (plain_runtime (200 * day)) ?rules True ?s))) = 3"
    by (simp add: run_defs demo_defs exec_defs)
  have "stats (Execute (plain_runtime (100 * day)) ?rules True ?s) \<noteq>
        stats (Execute (plain_runtime (200 * day)) ?rules True ?s)"
  proof
    assume "stats (Execute (plain_runtime (100 * day)) ?rules True ?s) =
            stats (Execute (plain_runtime (200 * day)) ?rules True ?s)"
    then have "DeletedFiles (the (stats (Execute (plain_runtime (100 * day)) ?rules True ?s))) =
               DeletedFiles (the (stats (Execute (plain_runtime (200 * day)) ?rules True ?s)))"
      by simp
    then show False
      unfolding d1 d2 by simp
  qed
  then show ?thesis
    by (simp add: run_defs demo_defs tie_x_def tie_y_def)
qed


lemma Execute_dry_stats:
  assumes "go_runtime rt" "Enabled rules" "\<not> list_fails s"
  shows "stats (Execute rt rules True s) = Some (fold (db_step rt rules) (db_folders rt s) empty_stats)"
  by (simp add: Execute_enabled[OF assms] process_dbs_dry)

text \<open>
  Claim C7, amended. For a fixed listing, taken as a sequence, a fixed policy, fixed clock
  readings and a fixed \<open>sort.Slice\<close> and calendar, the evaluation does not depend on the order in which
  Go iterates its maps: the files to delete and the files to retain of every database
  folder, the statistics of every folder, and the overall counts, sizes and per-database
  map are the same for every iteration order, and so are the overall oldest and newest
  retained times when no folder with retained files reports the zero instant. Ties in
  \<open>CreatedAt\<close> are not broken by key: they are left to \<open>sort.Slice\<close> on the listing order.
\<close>

theorem evaluation_independent_of_map_order:
  assumes "go_runtime rt1" and "go_runtime rt2"
    and "path_Dir rt1 = path_Dir rt2" and "sort_Slice rt1 = sort_Slice rt2"
    and "time_Now rt1 = time_Now rt2" and "time_AddDate rt1 = time_AddDate rt2"
  shows "map_option counts_and_sizes (stats (Execute rt1 rules True s)) =
         map_option counts_and_sizes (stats (Execute rt2 rules True s)) \<and>
         err (Execute rt1 rules True s) = err (Execute rt2 rules True s) \<and>
         (\<forall>g \<in> set (group_files (path_Dir rt1) (objects s)).
            mset (fst (process_db rt1 rules (fst g) (snd g))) =
            mset (fst (process_db rt2 rules (fst g) (snd g))) \<and>
            mset (fst (snd (process_db rt1 rules (fst g) (snd g)))) =
            mset (fst (snd (process_db rt2 rules (fst g) (snd g)))) \<and>
            db_stats rt1 rules g = db_stats rt2 rules g) \<and>
         ((\<forall>g \<in> set (group_files (path_Dir rt1) (objects s)).
             RetainedFiles (db_stats rt1 rules g) > 0 \<longrightarrow>
             OldestRetained (db_stats rt1 rules g) \<noteq> 0 \<and>
             NewestRetained (db_stats rt1 rules g) \<noteq> 0) \<longrightarrow>
          stats (Execute rt1 rules True s) = stats (Execute rt2 rules True s))"
proof -
  let ?G = "group_files (path_Dir rt1) (objects s)"
  note pr = process_db_runtime[OF assms(1,2,4,5,6)]
  have ds: "db_stats rt1 rules = db_stats rt2 rules"
    by (simp add: fun_eq_iff db_stats_def pr(3))
  have perm: "mset (db_folders rt1 s) = mset ?G" "mset (db_folders rt2 s) = mset ?G"
    by (simp_all add: db_folders_def go_runtime_range_dbs[OF assms(1)]
          go_runtime_range_dbs[OF assms(2)] assms(3))
  have sets: "set (db_folders rt1 s) = set ?G" "set (db_folders rt2 s) = set ?G"
    using perm by (metis mset_eq_setD)+
  let ?st1 = "fold (db_step rt1 rules) (db_folders rt1 s) empty_stats"
  let ?st2 = "fold (db_step rt2 rules) (db_folders rt2 s) empty_stats"
  have cs: "counts_and_sizes ?st1 = counts_and_sizes ?st2"
    using perm by (intro fold_db_step_perm[OF assms(1,2,4,5,6) _ db_folders_distinct[OF assms(1)]]) simp
  have st: "map_option counts_and_sizes (stats (Execute rt1 rules True s)) =
            map_option counts_and_sizes (stats (Execute rt2 rules True s))"
  proof (cases "Enabled rules \<and> \<not> list_fails s")
    case True
    then show ?thesis
      using cs by (simp add: Execute_dry_stats[OF assms(1)] Execute_dry_stats[OF assms(2)])
  next
    case False
    then show ?thesis
      by (auto simp: Execute_def s3_List_def)
  qed
  have full: "stats (Execute rt1 rules True s) = stats (Execute rt2 rules True s)"
    if nz: "\<forall>g \<in> set ?G. RetainedFiles (db_stats rt1 rules g) > 0 \<longrightarrow>
              OldestRetained (db_stats rt1 rules g) \<noteq> 0 \<and> NewestRetained (db_stats rt1 rules g) \<noteq> 0"
  proof (cases "Enabled rules \<and> \<not> list_fails s")
    case True
    have nz1: "\<forall>g \<in> set (db_folders rt1 s). RetainedFiles (db_stats rt1 rules g) > 0 \<longrightarrow>
              OldestRetained (db_stats rt1 rules g) \<noteq> 0 \<and> NewestRetained (db_stats rt1 rules g) \<noteq> 0"
      and nz2: "\<forall>g \<in> set (db_folders rt2 s). RetainedFiles (db_stats rt2 rules g) > 0 \<longrightarrow>
              OldestRetained (db_stats rt2 rules g) \<noteq> 0 \<and> NewestRetained (db_stats rt2 rules g) \<noteq> 0"
      using nz by (simp_all only: sets ds)
    have o: "OldestRetained ?st1 = OldestRetained ?st2"
      unfolding overall_oldest_newest(1)[OF assms(1) nz1] overall_oldest_newest(1)[OF assms(2) nz2]
      by (simp only: sets ds)
    have n: "NewestRetained ?st1 = NewestRetained ?st2"
      unfolding overall_oldest_newest(2)[OF assms(1) nz1] overall_oldest_newest(2)[OF assms(2) nz2]
      by (simp only: sets ds)
    have f: "TotalFiles ?st1 = TotalFiles ?st2" "DeletedFiles ?st1 = DeletedFiles ?st2"
      "RetainedFiles ?st1 = RetainedFiles ?st2" "DeletedSize ?st1 = DeletedSize ?st2"
      "RetainedSize ?st1 = RetainedSize ?st2" "PerDatabase ?st1 = PerDatabase ?st2"
      using arg_cong[OF cs, of TotalFiles] arg_cong[OF cs, of DeletedFiles]
        arg_cong[OF cs, of RetainedFiles] arg_cong[OF cs, of DeletedSize]
        arg_cong[OF cs, of RetainedSize] arg_cong[OF cs, of PerDatabase]
      by (simp_all add: counts_and_sizes_def)
    have "?st1 = ?st2"
      by (rule DeleteStats_eqI) (fact f o n)+
    then show ?thesis
      using True by (simp add: Execute_dry_stats[OF assms(1)] Execute_dry_stats[OF assms(2)])
  next
    case False
    then show ?thesis
      by (auto simp: Execute_def s3_List_def)
  qed
  show ?thesis
    using st pr full by (simp add: Execute_dry(3) db_stats_def)
qed

theorem evaluation_independent_of_map_order_witness:
  "go_runtime (plain_runtime 100) \<and> go_runtime (reversed_runtime 100) \<and>
   path_Dir (plain_runtime 100) = path_Dir (reversed_runtime 100) \<and>
   sort_Slice (plain_runtime 100) = sort_Slice (reversed_runtime 100) \<and>
   time_Now (plain_runtime 100) = time_Now (reversed_runtime 100) \<and>
   time_AddDate (plain_runtime 100) = time_AddDate (reversed_runtime 100) \<and>
   db_folders (plain_runtime 100) (two_folders (\<lambda>k. False)) =
     rev (db_folders (reversed_runtime 100) (two_folders (\<lambda>k. False))) \<and>
   stats (Execute (plain_runtime 100) \<lparr>MaxAgeDays = 0, MaxCount = 1, Enabled = True\<rparr> True
        (two_folders (\<lambda>k. False))) =
   stats (Execute (reversed_runtime 100) \<lparr>MaxAgeDays = 0, MaxCount = 1, Enabled = True\<rparr> True
        (two_folders (\<lambda>k. False)))"
proof -
  let ?rules = "\<lparr>MaxAgeDays = 0, MaxCount = 1, Enabled = True\<rparr>"
  let ?s = "two_folders (\<lambda>k. False)"
  have eq: "path_Dir (plain_runtime 100) = path_Dir (reversed_runtime 100)"
    "sort_Slice (plain_runtime 100) = sort_Slice (reversed_runtime 100)"
    "time_Now (plain_runtime 100) = time_Now (reversed_runtime 100)"
    "time_AddDate (plain_runtime 100) = time_AddDate (reversed_runtime 100)"
    by (simp_all add: plain_runtime_def reversed_runtime_def)
  have r: "db_folders (plain_runtime 100) ?s = rev (db_folders (reversed_runtime 100) ?s)"
    by (simp add: db_folders_def plain_runtime_def reversed_runtime_def)
  have nz: "\<forall>g \<in> set (group_files (path_Dir (plain_runtime 100)) (objects ?s)).
             RetainedFiles (db_stats (plain_runtime 100) ?rules g) > 0 \<longrightarrow>
             OldestRetained (db_stats (plain_runtime 100) ?rules g) \<noteq> 0 \<and>
             NewestRetained (db_stats (plain_runtime 100) ?rules g) \<noteq> 0"
    by (simp add: two_folders_def group_files_def add_file_def plain_Dir_def db_stats_def run_defs)
  show ?thesis
    using evaluation_independent_of_map_order[OF go_runtime_plain go_runtime_reversed eq,
        of ?rules ?s] nz r go_runtime_plain go_runtime_reversed eq
    by blast
qed

section \<open>Oldest and newest retained times of a run\<close>

lemma retained_files_stats:
  assumes rt: "go_runtime rt"
  shows "RetainedFiles (db_stats rt rules g) = int (length (retained_files rt rules g))"
    and "retained_files rt rules g \<noteq> [] \<Longrightarrow>
         OldestRetained (db_stats rt rules g) = Min (CreatedAt ` set (retained_files rt rules g))"
    and "retained_files rt rules g \<noteq> [] \<Longrightarrow>
         NewestRetained (db_stats rt rules g) = Max (CreatedAt ` set (retained_files rt rules g))"
proof -
  obtain del ret d where p: "process_db rt rules (fst g) (snd g) = (del, ret, d)"
    by (cases "process_db rt rules (fst g) (snd g)")
  have r: "retained_files rt rules g = ret" and d: "db_stats rt rules g = d"
    by (simp_all add: retained_files_def db_stats_def p)
  show "RetainedFiles (db_stats rt rules g) = int (length (retained_files rt rules g))"
    unfolding r d by (subst process_db_stats[OF rt p]) simp
  show "retained_files rt rules g \<noteq> [] \<Longrightarrow>
         OldestRetained (db_stats rt rules g) = Min (CreatedAt ` set (retained_files rt rules g))"
    unfolding r d using per_database_oldest_newest(1)[OF rt p] by simp
  show "retained_files rt rules g \<noteq> [] \<Longrightarrow>
         NewestRetained (db_stats rt rules g) = Max (CreatedAt ` set (retained_files rt rules g))"
    unfolding r d using per_database_oldest_newest(2)[OF rt p] by simp
qed

lemma retained_of_run_empty:
  assumes rt: "go_runtime rt"
  shows "retained_of_run rt rules gs = [] \<longleftrightarrow>
         (\<forall>g \<in> set gs. RetainedFiles (db_stats rt rules g) \<le> 0)"
  by (auto simp: retained_of_run_def retained_files_stats(1)[OF rt])

lemma min_of_folder_mins:
  assumes rt: "go_runtime rt" and ne: "retained_of_run rt rules gs \<noteq> []"
  shows "Min {OldestRetained (db_stats rt rules g) | g.
                g \<in> set gs \<and> RetainedFiles (db_stats rt rules g) > 0} =
         Min (CreatedAt ` set (retained_of_run rt rules gs))"
proof (rule Min_eqI)
  let ?K = "set (retained_of_run rt rules gs)"
  let ?S = "{OldestRetained (db_stats rt rules g) | g.
                g \<in> set gs \<and> RetainedFiles (db_stats rt rules g) > 0}"
  have "?S \<subseteq> (\<lambda>g. OldestRetained (db_stats rt rules g)) ` set gs"
    by blast
  then show "finite ?S"
    by (rule finite_subset) simp
  have inK: "OldestRetained (db_stats rt rules g) \<in> CreatedAt ` ?K"
    if "g \<in> set gs" "RetainedFiles (db_stats rt rules g) > 0" for g
  proof -
    have n: "retained_files rt rules g \<noteq> []"
      using that(2) by (auto simp: retained_files_stats(1)[OF rt])
    then have "Min (CreatedAt ` set (retained_files rt rules g)) \<in> CreatedAt ` set (retained_files rt rules g)"
      by (intro Min_in) simp_all
    then show ?thesis
      using that(1) by (auto simp: retained_files_stats(2)[OF rt n] retained_of_run_def)
  qed
  show "Min (CreatedAt ` ?K) \<le> y" if "y \<in> ?S" for y
  proof -
    from that obtain g where "y = OldestRetained (db_stats rt rules g)" "g \<in> set gs"
      "RetainedFiles (db_stats rt rules g) > 0"
      by blast
    then have "y \<in> CreatedAt ` ?K"
      using inK by blast
    then show ?thesis
      by (intro Min_le) simp_all
  qed
  have "Min (CreatedAt ` ?K) \<in> CreatedAt ` ?K"
    using ne by (intro Min_in) simp_all
  then obtain f g where f: "Min (CreatedAt ` ?K) = CreatedAt f" "f \<in> set (retained_files rt rules g)" "g \<in> set gs"
    by (auto simp: retained_of_run_def)
  have n: "retained_files rt rules g \<noteq> []"
    using f(2) by auto
  have pos: "RetainedFiles (db_stats rt rules g) > 0"
    using n by (simp add: retained_files_stats(1)[OF rt])
  have "OldestRetained (db_stats rt rules g) \<le> CreatedAt f"
    unfolding retained_files_stats(2)[OF rt n] using f(2) by (intro Min_le) simp_all
  moreover have "Min (CreatedAt ` ?K) \<le> OldestRetained (db_stats rt rules g)"
    using inK[OF f(3) pos] by (intro Min_le) simp_all
  ultimately have "Min (CreatedAt ` ?K) = OldestRetained (db_stats rt rules g)"
    using f(1) by simp
  then show "Min (CreatedAt ` ?K) \<in> ?S"
    using f(3) pos by blast
qed

lemma max_of_folder_maxs:
  assumes rt: "go_runtime rt" and ne: "retained_of_run rt rules gs \<noteq> []"
  shows "Max {NewestRetained (db_stats rt rules g) | g.
                g \<in> set gs \<and> RetainedFiles (db_stats rt rules g) > 0} =
         Max (CreatedAt ` set (retained_of_run rt rules gs))"
proof (rule Max_eqI)
  let ?K = "set (retained_of_run rt rules gs)"
  let ?S = "{NewestRetained (db_stats rt rules g) | g.
                g \<in> set gs \<and> RetainedFiles (db_stats rt rules g) > 0}"
  have "?S \<subseteq> (\<lambda>g. NewestRetained (db_stats rt rules g)) ` set gs"
    by blast
  then show "finite ?S"
    by (rule finite_subset) simp
  have inK: "NewestRetained (db_stats rt rules g) \<in> CreatedAt ` ?K"
    if "g \<in> set gs" "RetainedFiles (db_stats rt rules g) > 0" for g
  proof -
    have n: "retained_files rt rules g \<noteq> []"
      using that(2) by (auto simp: retained_files_stats(1)[OF rt])
    then have "Max (CreatedAt ` set (retained_files rt rules g)) \<in> CreatedAt ` set (retained_files rt rules g)"
      by (intro Max_in) simp_all
    then show ?thesis
      using that(1) by (auto simp: retained_files_stats(3)[OF rt n] retained_of_run_def)
  qed
  show "y \<le> Max (CreatedAt ` ?K)" if "y \<in> ?S" for y
  proof -
    from that obtain g where "y = NewestRetained (db_stats rt rules g)" "g \<in> set gs"
      "RetainedFiles (db_stats rt rules g) > 0"
      by blast
    then have "y \<in> CreatedAt ` ?K"
      using inK by blast
    then show ?thesis
      by (intro Max_ge) simp_all
  qed
  have "Max (CreatedAt ` ?K) \<in> CreatedAt ` ?K"
    using ne by (intro Max_in) simp_all
  then obtain f g where f: "Max (CreatedAt ` ?K) = CreatedAt f" "f \<in> set (retained_files rt rules g)" "g \<in> set gs"
    by (auto simp: retained_of_run_def)
  have n: "retained_files rt rules g \<noteq> []"
    using f(2) by auto
  have pos: "RetainedFiles (db_stats rt rules g) > 0"
    using n by (simp add: retained_files_stats(1)[OF rt])
  have "CreatedAt f \<le> NewestRetained (db_stats rt rules g)"
    unfolding retained_files_stats(3)[OF rt n] using f(2) by (intro Max_ge) simp_all
  moreover have "NewestRetained (db_stats rt rules g) \<le> Max (CreatedAt ` ?K)"
    using inK[OF f(3) pos] by (intro Max_ge) simp_all
  ultimately have "Max (CreatedAt ` ?K) = NewestRetained (db_stats rt rules g)"
    using f(1) by simp
  then show "Max (CreatedAt ` ?K) \<in> ?S"
    using f(3) pos by blast
qed

lemma retained_not_zero:
  assumes rt: "go_runtime rt" and nz: "0 \<notin> CreatedAt ` set (retained_of_run rt rules gs)"
  shows "\<forall>g \<in> set gs. RetainedFiles (db_stats rt rules g) > 0 \<longrightarrow>
           OldestRetained (db_stats rt rules g) \<noteq> 0 \<and> NewestRetained (db_stats rt rules g) \<noteq> 0"
proof (intro ballI impI)
  fix g assume g: "g \<in> set gs" "RetainedFiles (db_stats rt rules g) > 0"
  let ?C = "CreatedAt ` set (retained_files rt rules g)"
  have n: "retained_files rt rules g \<noteq> []"
    using g(2) by (auto simp: retained_files_stats(1)[OF rt])
  have sub: "?C \<subseteq> CreatedAt ` set (retained_of_run rt rules gs)"
    using g(1) by (auto simp: retained_of_run_def)
  have fin: "finite ?C" "?C \<noteq> {}"
    using n by simp_all
  have mn: "Min ?C \<in> ?C"
    using fin by (rule Min_in)
  have mx: "Max ?C \<in> ?C"
    using fin by (rule Max_in)
  have "Min ?C \<noteq> 0" "Max ?C \<noteq> 0"
    using mn mx sub nz by (metis subsetD)+
  then show "OldestRetained (db_stats rt rules g) \<noteq> 0 \<and> NewestRetained (db_stats rt rules g) \<noteq> 0"
    by (simp only: retained_files_stats(2,3)[OF rt n] simp_thms)
qed


lemma Execute_stats_evaluated:
  assumes rt: "go_runtime rt" and st: "stats (Execute rt rules dryRun s) = Some st"
  shows "st = fold (db_step rt rules) (folders_evaluated rt rules dryRun s) empty_stats"
proof (cases "Enabled rules")
  case False
  then show ?thesis
    using st by (simp add: Execute_def folders_evaluated_def)
next
  case True
  then have nl: "\<not> list_fails s"
    using st by (auto simp: Execute_def s3_List_def)
  show ?thesis
    using st True
    by (cases dryRun)
       (simp_all add: Execute_enabled[OF rt True nl] process_dbs_dry process_dbs_live folders_evaluated_def)
qed

lemma folders_evaluated_complete:
  assumes "Enabled rules" "err (Execute rt rules dryRun s) = None" "objects s \<noteq> []"
  shows "folders_evaluated rt rules dryRun s = db_folders rt s"
proof (cases dryRun)
  case True
  then show ?thesis
    using assms(1) by (simp add: folders_evaluated_def)
next
  case False
  have nl: "\<not> list_fails s"
    using assms(1,2) by (auto simp: Execute_def s3_List_def)
  have "Execute rt rules False s =
        process_dbs rt rules False (db_folders rt s) empty_stats s []"
    using assms(1,3) nl by (simp add: Execute_def s3_List_def db_folders_def)
  then have "dropWhile (\<lambda>k. \<not> delete_fails s k) (planned rt rules (db_folders rt s)) = []"
    using assms(2) False unfolding process_dbs_live by (simp split: list.splits)
  then have "\<forall>k \<in> set (planned rt rules (db_folders rt s)). \<not> delete_fails s k"
    by (simp add: dropWhile_Nil_iff)
  then have "folders_reached rt rules (delete_fails s) (db_folders rt s) = db_folders rt s"
    by (rule folders_reached_all)
  then show ?thesis
    using False assms(1) by (simp add: folders_evaluated_def)
qed

text \<open>
  Claim C9, amended. For every database folder, \<open>OldestRetained\<close> and \<open>NewestRetained\<close> are
  the least and the greatest \<open>CreatedAt\<close> among the files the folder retains, and the zero
  instant when it retains none. For every statistics value a run returns, the overall
  \<open>OldestRetained\<close> and \<open>NewestRetained\<close> are the least and the greatest \<open>CreatedAt\<close> among
  the files retained by the folders the run evaluated (all folders when the run ends
  without error), and the zero instant when none is retained, provided no retained file
  is stamped with the zero instant itself, which the overall statistics use as their mark
  for "not set". An empty listing gives the zeroed statistics and no error.
\<close>

theorem oldest_newest_of_retained:
  assumes "go_runtime rt"
  shows "(process_db rt rules dbFolder files0 = (del, ret, dbStats) \<longrightarrow>
            OldestRetained dbStats = (if ret = [] then 0 else Min (CreatedAt ` set ret)) \<and>
            NewestRetained dbStats = (if ret = [] then 0 else Max (CreatedAt ` set ret))) \<and>
         (stats (Execute rt rules dryRun s) = Some st \<and>
          0 \<notin> CreatedAt ` set (retained_of_run rt rules (folders_evaluated rt rules dryRun s)) \<longrightarrow>
            OldestRetained st =
              (if retained_of_run rt rules (folders_evaluated rt rules dryRun s) = [] then 0
               else Min (CreatedAt ` set (retained_of_run rt rules (folders_evaluated rt rules dryRun s)))) \<and>
            NewestRetained st =
              (if retained_of_run rt rules (folders_evaluated rt rules dryRun s) = [] then 0
               else Max (CreatedAt ` set (retained_of_run rt rules (folders_evaluated rt rules dryRun s))))) \<and>
         (Enabled rules \<and> err (Execute rt rules dryRun s) = None \<and> objects s \<noteq> [] \<longrightarrow>
            folders_evaluated rt rules dryRun s = db_folders rt s) \<and>
         (\<not> list_fails s \<and> objects s = [] \<longrightarrow>
            Execute rt rules dryRun s =
              \<lparr>stats = Some empty_stats, err = None, calls = [], store = s\<rparr>)"
proof (intro conjI impI)
  assume p: "process_db rt rules dbFolder files0 = (del, ret, dbStats)"
  show "OldestRetained dbStats = (if ret = [] then 0 else Min (CreatedAt ` set ret))"
    by (rule per_database_oldest_newest(1)[OF assms p])
  show "NewestRetained dbStats = (if ret = [] then 0 else Max (CreatedAt ` set ret))"
    by (rule per_database_oldest_newest(2)[OF assms p])
next
  assume "\<not> list_fails s \<and> objects s = []"
  then show "Execute rt rules dryRun s = \<lparr>stats = Some empty_stats, err = None, calls = [], store = s\<rparr>"
    by (simp add: empty_listing)
next
  assume "Enabled rules \<and> err (Execute rt rules dryRun s) = None \<and> objects s \<noteq> []"
  then show "folders_evaluated rt rules dryRun s = db_folders rt s"
    by (intro folders_evaluated_complete) simp_all
next
  let ?gs = "folders_evaluated rt rules dryRun s"
  assume h: "stats (Execute rt rules dryRun s) = Some st \<and>
          0 \<notin> CreatedAt ` set (retained_of_run rt rules ?gs)"
  then have st: "st = fold (db_step rt rules) ?gs empty_stats"
    by (intro Execute_stats_evaluated[OF assms]) simp
  have nz: "\<forall>g \<in> set ?gs. RetainedFiles (db_stats rt rules g) > 0 \<longrightarrow>
           OldestRetained (db_stats rt rules g) \<noteq> 0 \<and> NewestRetained (db_stats rt rules g) \<noteq> 0"
    using h by (intro retained_not_zero[OF assms]) simp
  note on = overall_oldest_newest[OF assms nz, folded st]
  show "OldestRetained st =
                 (if retained_of_run rt rules ?gs = [] then 0
                  else Min (CreatedAt ` set (retained_of_run rt rules ?gs)))"
  proof (cases "retained_of_run rt rules ?gs = []")
    case True
    then have c: "\<forall>g \<in> set ?gs. RetainedFiles (db_stats rt rules g) \<le> 0"
      by (simp only: retained_of_run_empty[OF assms])
    show ?thesis
      unfolding on(1) by (subst if_P[OF c], subst if_P[OF True], rule refl)
  next
    case False
    then have c: "\<not> (\<forall>g \<in> set ?gs. RetainedFiles (db_stats rt rules g) \<le> 0)"
      using retained_of_run_empty[OF assms, of rules ?gs] by blast
    show ?thesis
      unfolding on(1)
      by (subst if_not_P[OF c], subst if_not_P[OF False], rule min_of_folder_mins[OF assms False])
  qed
  show "NewestRetained st =
                 (if retained_of_run rt rules ?gs = [] then 0
                  else Max (CreatedAt ` set (retained_of_run rt rules ?gs)))"
  proof (cases "retained_of_run rt rules ?gs = []")
    case True
    then have c: "\<forall>g \<in> set ?gs. RetainedFiles (db_stats rt rules g) \<le> 0"
      by (simp only: retained_of_run_empty[OF assms])
    show ?thesis
      unfolding on(2) by (subst if_P[OF c], subst if_P[OF True], rule refl)
  next
    case False
    then have c: "\<not> (\<forall>g \<in> set ?gs. RetainedFiles (db_stats rt rules g) \<le> 0)"
      using retained_of_run_empty[OF assms, of rules ?gs] by blast
    show ?thesis
      unfolding on(2)
      by (subst if_not_P[OF c], subst if_not_P[OF False], rule max_of_folder_maxs[OF assms False])
  qed
qed

theorem oldest_newest_of_retained_witness:
  "go_runtime (plain_runtime 100) \<and>
   stats (Execute (plain_runtime 100) \<lparr>MaxAgeDays = 0, MaxCount = 1, Enabled = True\<rparr> True
     (two_folders (\<lambda>k. False))) = Some two_folders_stats \<and>
   err (Execute (plain_runtime 100) \<lparr>MaxAgeDays = 0, MaxCount = 1, Enabled = True\<rparr> True
     (two_folders (\<lambda>k. False))) = None \<and>
   folders_evaluated (plain_runtime 100) \<lparr>MaxAgeDays = 0, MaxCount = 1, Enabled = True\<rparr> True
     (two_folders (\<lambda>k. False)) = db_folders (plain_runtime 100) (two_folders (\<lambda>k. False)) \<and>
   retained_of_run (plain_runtime 100) \<lparr>MaxAgeDays = 0, MaxCount = 1, Enabled = True\<rparr>
     (folders_evaluated (plain_runtime 100) \<lparr>MaxAgeDays = 0, MaxCount = 1, Enabled = True\<rparr> True
        (two_folders (\<lambda>k. False))) =
     [\<lparr>Key = ''a/3'', CreatedAt = 30, Size = 8\<rparr>, \<lparr>Key = ''b/2'', CreatedAt = 20, Size = 16\<rparr>] \<and>
   OldestRetained two_folders_stats = 20 \<and> NewestRetained two_folders_stats = 30 \<and>
   Min (CreatedAt ` set [\<lparr>Key = ''a/3'', CreatedAt = 30, Size = 8\<rparr>,
                          \<lparr>Key = ''b/2'', CreatedAt = 20, Size = 16\<rparr>]) = 20 \<and>
   Max (CreatedAt ` set [\<lparr>Key = ''a/3'', CreatedAt = 30, Size = 8\<rparr>,
                          \<lparr>Key = ''b/2'', CreatedAt = 20, Size = 16\<rparr>]) = 30 \<and>
   process_db (plain_runtime 100) \<lparr>MaxAgeDays = 0, MaxCount = 1, Enabled = True\<rparr> ''db''
     [tie_x, tie_y] =
     ([tie_y], [tie_x],
      \<lparr>TotalFiles = 2, DeletedFiles = 1, RetainedFiles = 1, DeletedSize = 2, RetainedSize = 1,
       OldestRetained = 50, NewestRetained = 50\<rparr>) \<and>
   Execute (plain_runtime 100) \<lparr>MaxAgeDays = 0, MaxCount = 1, Enabled = True\<rparr> False
     \<lparr>objects = [], list_fails = False, delete_fails = (\<lambda>k. True)\<rparr> =
     \<lparr>stats = Some empty_stats, err = None, calls = [],
      store = \<lparr>objects = [], list_fails = False, delete_fails = (\<lambda>k. True)\<rparr>\<rparr>"
proof -
  let ?rt = "plain_runtime 100"
  let ?rules = "\<lparr>MaxAgeDays = 0, MaxCount = 1, Enabled = True\<rparr>"
  let ?s = "two_folders (\<lambda>k. False)"
  let ?e = "\<lparr>objects = [], list_fails = False, delete_fails = (\<lambda>k. True)\<rparr>"
  let ?kept = "[\<lparr>Key = ''a/3'', CreatedAt = 30, Size = 8\<rparr>, \<lparr>Key = ''b/2'', CreatedAt = 20, Size = 16\<rparr>]"
  have gs: "db_folders ?rt ?s =
      [(''a'', [\<lparr>Key = ''a/1'', CreatedAt = 10, Size = 1\<rparr>, \<lparr>Key = ''a/2'', CreatedAt = 20, Size = 2\<rparr>,
                \<lparr>Key = ''a/3'', CreatedAt = 30, Size = 8\<rparr>]),
       (''b'', [\<lparr>Key = ''b/1'', CreatedAt = 10, Size = 4\<rparr>, \<lparr>Key = ''b/2'', CreatedAt = 20, Size = 16\<rparr>])]"
    by (simp add: db_folders_def two_folders_def plain_runtime_def group_files_def add_file_def plain_Dir_def)
  have en: "Enabled ?rules" "\<not> list_fails ?s" "\<not> list_fails ?e" "objects ?e = []" "objects ?s \<noteq> []"
    by (simp_all add: two_folders_def)
  have ok: "err (Execute ?rt ?rules True ?s) = None"
    using en by (simp add: Execute_dry(3))
  have ev: "stats (Execute ?rt ?rules True ?s) = Some two_folders_stats"
    by (simp add: exec_defs run_defs two_folders_def two_folders_stats_def)
  note t = oldest_newest_of_retained[OF go_runtime_plain,
      where rules = ?rules and s = ?s and dryRun = True and st = two_folders_stats]
  have fe: "folders_evaluated ?rt ?rules True ?s = db_folders ?rt ?s"
    using t[THEN conjunct2, THEN conjunct2, THEN conjunct1] en(1,5) ok by blast
  have rr: "retained_of_run ?rt ?rules (folders_evaluated ?rt ?rules True ?s) = ?kept"
    unfolding fe gs by (simp add: retained_of_run_def retained_files_def run_defs)
  have nz: "0 \<notin> CreatedAt ` set (retained_of_run ?rt ?rules (folders_evaluated ?rt ?rules True ?s))"
    unfolding rr by simp
  have mm: "Min (CreatedAt ` set ?kept) = 20" "Max (CreatedAt ` set ?kept) = 30"
    by simp_all
  have on: "OldestRetained two_folders_stats = 20" "NewestRetained two_folders_stats = 30"
    using t[THEN conjunct2, THEN conjunct1, rule_format, OF conjI[OF ev nz]]
    unfolding rr mm by simp_all
  have p: "process_db ?rt ?rules ''db'' [tie_x, tie_y] =
     ([tie_y], [tie_x],
      \<lparr>TotalFiles = 2, DeletedFiles = 1, RetainedFiles = 1, DeletedSize = 2, RetainedSize = 1,
       OldestRetained = 50, NewestRetained = 50\<rparr>)"
    by (simp add: run_defs tie_x_def tie_y_def)
  have e: "Execute ?rt ?rules False ?e = \<lparr>stats = Some empty_stats, err = None, calls = [], store = ?e\<rparr>"
    using oldest_newest_of_retained[OF go_runtime_plain,
        where rules = ?rules and s = ?e and dryRun = False,
        THEN conjunct2, THEN conjunct2, THEN conjunct2] en(3,4) by blast
  show ?thesis
    by (intro conjI) (fact go_runtime_plain ev ok fe rr on mm p e)+
qed

lemma per_database_of_fold:
  assumes rt: "go_runtime rt" and d: "distinct (map fst gs)"
    and st: "st = fold (db_step rt rules) gs empty_stats"
  shows "dom (PerDatabase st) = fst ` set gs"
    and "g \<in> set gs \<Longrightarrow> PerDatabase st (fst g) = Some (db_stats rt rules g)"
proof -
  have m: "PerDatabase st = map_of (map (\<lambda>g. (fst g, db_stats rt rules g)) gs)"
    by (simp add: st fold_db_step_map[OF rt d] empty_stats_def)
  show "dom (PerDatabase st) = fst ` set gs"
    by (simp add: m dom_map_of_conv_image_fst image_image)
  show "g \<in> set gs \<Longrightarrow> PerDatabase st (fst g) = Some (db_stats rt rules g)"
    unfolding m using d by (intro map_of_is_SomeI) (auto simp: comp_def)
qed

text \<open>
  Claim C10, amended. The overall counts and sizes of every statistics value a run returns
  are the sums of the corresponding fields of its per-database statistics. The overall
  \<open>OldestRetained\<close> and \<open>NewestRetained\<close> are the least and the greatest of the values the
  database folders with retained files report, and the zero instant when no folder
  retains a file, provided none of these values is the zero instant itself, which the
  overall statistics use as their mark for "not set".
\<close>

theorem overall_stats_of_folders:
  assumes "go_runtime rt" and "stats (Execute rt rules dryRun s) = Some st"
  shows "TotalFiles st = (\<Sum>k \<in> dom (PerDatabase st). TotalFiles (the (PerDatabase st k))) \<and>
         DeletedFiles st = (\<Sum>k \<in> dom (PerDatabase st). DeletedFiles (the (PerDatabase st k))) \<and>
         RetainedFiles st = (\<Sum>k \<in> dom (PerDatabase st). RetainedFiles (the (PerDatabase st k))) \<and>
         DeletedSize st = (\<Sum>k \<in> dom (PerDatabase st). DeletedSize (the (PerDatabase st k))) \<and>
         RetainedSize st = (\<Sum>k \<in> dom (PerDatabase st). RetainedSize (the (PerDatabase st k))) \<and>
         ((\<forall>k \<in> dom (PerDatabase st). RetainedFiles (the (PerDatabase st k)) > 0 \<longrightarrow>
             OldestRetained (the (PerDatabase st k)) \<noteq> 0 \<and>
             NewestRetained (the (PerDatabase st k)) \<noteq> 0) \<longrightarrow>
          OldestRetained st =
            (if \<forall>k \<in> dom (PerDatabase st). RetainedFiles (the (PerDatabase st k)) \<le> 0 then 0
             else Min {OldestRetained (the (PerDatabase st k)) | k.
                         k \<in> dom (PerDatabase st) \<and> RetainedFiles (the (PerDatabase st k)) > 0}) \<and>
          NewestRetained st =
            (if \<forall>k \<in> dom (PerDatabase st). RetainedFiles (the (PerDatabase st k)) \<le> 0 then 0
             else Max {NewestRetained (the (PerDatabase st k)) | k.
                         k \<in> dom (PerDatabase st) \<and> RetainedFiles (the (PerDatabase st k)) > 0}))"
proof -
  obtain gs where gs: "distinct (map fst gs)" "st = fold (db_step rt rules) gs empty_stats"
    using Execute_stats_fold[OF assms] by blast
  note sums = sums_of_fold[OF assms(1) gs]
  note pd = per_database_of_fold[OF assms(1) gs]
  let ?m = "PerDatabase st"
  let ?D = "db_stats rt rules"
  have look: "the (?m (fst g)) = ?D g" if "g \<in> set gs" for g
    using pd(2)[OF that] by simp
  have ball: "(\<forall>k \<in> dom ?m. P (the (?m k))) \<longleftrightarrow> (\<forall>g \<in> set gs. P (?D g))" for P
    unfolding pd(1) using look by auto
  have sets: "{F (the (?m k)) | k. k \<in> dom ?m \<and> Q (the (?m k))} =
              {F (?D g) | g. g \<in> set gs \<and> Q (?D g)}" for F :: "DatabaseStats \<Rightarrow> int" and Q
  proof (intro set_eqI iffI)
    fix x assume "x \<in> {F (the (?m k)) | k. k \<in> dom ?m \<and> Q (the (?m k))}"
    then obtain k where k: "x = F (the (?m k))" "k \<in> dom ?m" "Q (the (?m k))"
      by blast
    then obtain g where g: "g \<in> set gs" "k = fst g"
      unfolding pd(1) by blast
    have "x = F (?D g)" "Q (?D g)"
      using k(1,3) look[OF g(1)] unfolding g(2) by simp_all
    then show "x \<in> {F (?D g) | g. g \<in> set gs \<and> Q (?D g)}"
      using g(1) by blast
  next
    fix x assume "x \<in> {F (?D g) | g. g \<in> set gs \<and> Q (?D g)}"
    then obtain g where g: "x = F (?D g)" "g \<in> set gs" "Q (?D g)"
      by blast
    have "fst g \<in> dom ?m"
      unfolding pd(1) using g(2) by simp
    moreover have "x = F (the (?m (fst g)))" "Q (the (?m (fst g)))"
      using g(1,3) by (simp_all only: look[OF g(2)])
    ultimately show "x \<in> {F (the (?m k)) | k. k \<in> dom ?m \<and> Q (the (?m k))}"
      by blast
  qed
  have minmax: "OldestRetained st =
            (if \<forall>k \<in> dom ?m. RetainedFiles (the (?m k)) \<le> 0 then 0
             else Min {OldestRetained (the (?m k)) | k. k \<in> dom ?m \<and> RetainedFiles (the (?m k)) > 0}) \<and>
          NewestRetained st =
            (if \<forall>k \<in> dom ?m. RetainedFiles (the (?m k)) \<le> 0 then 0
             else Max {NewestRetained (the (?m k)) | k. k \<in> dom ?m \<and> RetainedFiles (the (?m k)) > 0})"
    if nz: "\<forall>k \<in> dom ?m. RetainedFiles (the (?m k)) > 0 \<longrightarrow>
             OldestRetained (the (?m k)) \<noteq> 0 \<and> NewestRetained (the (?m k)) \<noteq> 0"
  proof -
    have nz': "\<forall>g \<in> set gs. RetainedFiles (?D g) > 0 \<longrightarrow>
                 OldestRetained (?D g) \<noteq> 0 \<and> NewestRetained (?D g) \<noteq> 0"
      using nz ball[of "\<lambda>d. RetainedFiles d > 0 \<longrightarrow> OldestRetained d \<noteq> 0 \<and> NewestRetained d \<noteq> 0"]
      by blast
    note on = overall_oldest_newest[OF assms(1) nz', folded gs(2)]
    show ?thesis
      unfolding on ball[of "\<lambda>d. RetainedFiles d \<le> 0"]
        sets[of OldestRetained "\<lambda>d. RetainedFiles d > 0"]
        sets[of NewestRetained "\<lambda>d. RetainedFiles d > 0"]
      by (rule conjI; rule refl)
  qed
  show ?thesis
    using sums minmax by blast
qed


theorem overall_stats_of_folders_witness:
  "go_runtime (plain_runtime 100) \<and>
   stats (Execute (plain_runtime 100) \<lparr>MaxAgeDays = 0, MaxCount = 1, Enabled = True\<rparr> True
     (two_folders (\<lambda>k. False))) = Some two_folders_stats \<and>
   dom (PerDatabase two_folders_stats) = {''a'', ''b''} \<and>
   OldestRetained (the (PerDatabase two_folders_stats ''a'')) = 30 \<and>
   NewestRetained (the (PerDatabase two_folders_stats ''a'')) = 30 \<and>
   OldestRetained (the (PerDatabase two_folders_stats ''b'')) = 20 \<and>
   NewestRetained (the (PerDatabase two_folders_stats ''b'')) = 20 \<and>
   TotalFiles two_folders_stats =
     (\<Sum>k \<in> dom (PerDatabase two_folders_stats). TotalFiles (the (PerDatabase two_folders_stats k))) \<and>
   DeletedSize two_folders_stats =
     (\<Sum>k \<in> dom (PerDatabase two_folders_stats). DeletedSize (the (PerDatabase two_folders_stats k))) \<and>
   OldestRetained two_folders_stats =
     (if \<forall>k \<in> dom (PerDatabase two_folders_stats).
           RetainedFiles (the (PerDatabase two_folders_stats k)) \<le> 0 then 0
      else Min {OldestRetained (the (PerDatabase two_folders_stats k)) | k.
                  k \<in> dom (PerDatabase two_folders_stats) \<and>
                  RetainedFiles (the (PerDatabase two_folders_stats k)) > 0}) \<and>
   NewestRetained two_folders_stats =
     (if \<forall>k \<in> dom (PerDatabase two_folders_stats).
           RetainedFiles (the (PerDatabase two_folders_stats k)) \<le> 0 then 0
      else Max {NewestRetained (the (PerDatabase two_folders_stats k)) | k.
                  k \<in> dom (PerDatabase two_folders_stats) \<and>
                  RetainedFiles (the (PerDatabase two_folders_stats k)) > 0}) \<and>
   OldestRetained two_folders_stats = 20 \<and> NewestRetained two_folders_stats = 30"
proof -
  let ?rt = "plain_runtime 100"
  let ?rules = "\<lparr>MaxAgeDays = 0, MaxCount = 1, Enabled = True\<rparr>"
  let ?s = "two_folders (\<lambda>k. False)"
  have ev: "stats (Execute ?rt ?rules True ?s) = Some two_folders_stats"
    by (simp add: exec_defs run_defs two_folders_def two_folders_stats_def)
  have d: "dom (PerDatabase two_folders_stats) = {''a'', ''b''}"
    by (auto simp: two_folders_stats_def)
  have v: "OldestRetained (the (PerDatabase two_folders_stats ''a'')) = 30"
    "NewestRetained (the (PerDatabase two_folders_stats ''a'')) = 30"
    "OldestRetained (the (PerDatabase two_folders_stats ''b'')) = 20"
    "NewestRetained (the (PerDatabase two_folders_stats ''b'')) = 20"
    "OldestRetained two_folders_stats = 20" "NewestRetained two_folders_stats = 30"
    by (simp_all add: two_folders_stats_def)
  have nz: "\<forall>k \<in> dom (PerDatabase two_folders_stats).
      RetainedFiles (the (PerDatabase two_folders_stats k)) > 0 \<longrightarrow>
      OldestRetained (the (PerDatabase two_folders_stats k)) \<noteq> 0 \<and>
      NewestRetained (the (PerDatabase two_folders_stats k)) \<noteq> 0"
    unfolding d using v by simp
  show ?thesis
    using overall_stats_of_folders[OF go_runtime_plain ev] nz go_runtime_plain ev d v by blast
qed

end
